theory Spec2Isabelle
  imports Main "HOL-Library.AList" "HOL-Library.Sublist"
begin

section \<open>The board: boxes, units and peers\<close>

text \<open>
  \<^verbatim>\<open>solution.py\<close> starts with \<^verbatim>\<open>from utils import *\<close>; the module \<^verbatim>\<open>utils\<close> is not
  among the sources. What it provides (\<^verbatim>\<open>rows\<close>, \<^verbatim>\<open>cols\<close>, \<^verbatim>\<open>boxes\<close>, \<^verbatim>\<open>cross\<close>,
  \<^verbatim>\<open>extract_units\<close>, \<^verbatim>\<open>extract_peers\<close>, \<^verbatim>\<open>grid2values\<close>) is written down here from the
  specification; the unit lists of lines 5 to 15 of \<^verbatim>\<open>solution.py\<close> are translated from the
  source. A box name is a Python string of two characters, a row letter and a column digit.
\<close>

text \<open>Modelled from the spec: \<^verbatim>\<open>utils.rows\<close>, the nine row letters (a cell is "row letter +
  column digit"; \<^verbatim>\<open>solution.py\<close> groups them as \<^verbatim>\<open>'ABC'\<close>, \<^verbatim>\<open>'DEF'\<close>, \<^verbatim>\<open>'GHI'\<close>).\<close>

definition rows :: string where
  "rows = ''ABCDEFGHI''"

text \<open>Modelled from the spec: \<^verbatim>\<open>utils.cols\<close>, the nine column digits.\<close>

definition cols :: string where
  "cols = ''123456789''"

text \<open>Modelled from the spec: \<^verbatim>\<open>utils.cross\<close>, every concatenation of a character of the
  first string with a character of the second, the first string varying slowest.\<close>

definition cross :: "string \<Rightarrow> string \<Rightarrow> string list" where
  "cross A B = concat (map (\<lambda>x. map (\<lambda>y. [x, y]) B) A)"

text \<open>Modelled from the spec: \<^verbatim>\<open>utils.boxes\<close>, the 81 cell identifiers, row by row.\<close>

definition boxes :: "string list" where
  "boxes = cross rows cols"

definition row_units :: "string list list" where
  "row_units = map (\<lambda>r. cross [r] cols) rows"

definition column_units :: "string list list" where
  "column_units = map (\<lambda>c. cross rows [c]) cols"

definition square_units :: "string list list" where
  "square_units =
     concat (map (\<lambda>rs. map (\<lambda>cs. cross rs cs) [''123'', ''456'', ''789''])
       [''ABC'', ''DEF'', ''GHI''])"

definition diagonal_units :: "string list list" where
  "diagonal_units =
     [map (\<lambda>(r, c). [r, c]) (zip rows cols), map (\<lambda>(r, c). [r, c]) (zip rows (rev cols))]"

definition unitlist :: "string list list" where
  "unitlist = row_units @ column_units @ square_units @ diagonal_units"

text \<open>Modelled from the spec: \<^verbatim>\<open>utils.extract_units\<close>; \<^verbatim>\<open>units[box]\<close> is the list of the
  units the box belongs to.\<close>

definition units :: "string \<Rightarrow> string list list" where
  "units box = filter (\<lambda>unit. box \<in> set unit) unitlist"

text \<open>Modelled from the spec: \<^verbatim>\<open>utils.extract_peers\<close>; \<^verbatim>\<open>peers[box]\<close> is the set of all
  other cells that share a unit with the box, without duplicates. Python iterates a set
  in an order of its own; the list fixes one order, and the only loop over it
  (in \<open>eliminate\<close>) writes a different key in every round, each from its own old value.\<close>

definition peers :: "string \<Rightarrow> string list" where
  "peers box = remdups (filter (\<lambda>peer. peer \<noteq> box) (concat (units box)))"


section \<open>Assignments: Python dictionaries from box names to candidate strings\<close>

text \<open>
  A dictionary keeps its keys in insertion order, and the loops over \<^verbatim>\<open>values.items()\<close>
  follow that order, so an assignment is an association list. Reading a key that is
  absent raises \<^verbatim>\<open>KeyError\<close>; storing to a key that is present keeps its position.
\<close>

datatype error = KeyError

type_synonym assignment = "(string \<times> string) list"

definition getitem :: "assignment \<Rightarrow> string \<Rightarrow> error + string" where
  "getitem values k = (case map_of values k of None \<Rightarrow> Inl KeyError | Some v \<Rightarrow> Inr v)"

definition setitem :: "assignment \<Rightarrow> string \<Rightarrow> string \<Rightarrow> assignment" where
  "setitem values k v = AList.update k v values"

text \<open>\<^verbatim>\<open>s.replace(d, '')\<close> for a string \<^verbatim>\<open>d\<close> of one character: every occurrence goes.\<close>

definition replace :: "string \<Rightarrow> char \<Rightarrow> string" where
  "replace s d = filter (\<lambda>c. c \<noteq> d) s"

text \<open>A \<^verbatim>\<open>for\<close> loop whose body may raise: the first error ends the loop.\<close>

fun for_each :: "('a \<Rightarrow> 's \<Rightarrow> error + 's) \<Rightarrow> 'a list \<Rightarrow> 's \<Rightarrow> error + 's" where
  "for_each body [] s = Inr s"
| "for_each body (x # xs) s =
     (case body x s of Inl e \<Rightarrow> Inl e | Inr s' \<Rightarrow> for_each body xs s')"

text \<open>\<^verbatim>\<open>values[cell] = values[cell].replace(digit, '')\<close>\<close>

definition remove_digit :: "char \<Rightarrow> string \<Rightarrow> assignment \<Rightarrow> error + assignment" where
  "remove_digit digit cell values =
     (case getitem values cell of
        Inl e \<Rightarrow> Inl e
      | Inr s \<Rightarrow> Inr (setitem values cell (replace s digit)))"


section \<open>The strategies\<close>

subsection \<open>\<^verbatim>\<open>naked_twins\<close>\<close>

text \<open>\<^verbatim>\<open>[(box, values[box]) for box in unit if len(values[box]) == 2]\<close>\<close>

fun possible_twins :: "assignment \<Rightarrow> string list \<Rightarrow> error + (string \<times> string) list" where
  "possible_twins values [] = Inr []"
| "possible_twins values (box # unit) =
     (case getitem values box of
        Inl e \<Rightarrow> Inl e
      | Inr v \<Rightarrow>
         (case possible_twins values unit of
            Inl e \<Rightarrow> Inl e
          | Inr rest \<Rightarrow> Inr (if length v = 2 then (box, v) # rest else rest)))"

text \<open>The body under \<^verbatim>\<open># Twin found\<close>: both digits of the pair are removed from every
  cell of the unit that is not one of the two twin boxes.\<close>

definition twin_found :: "string list \<Rightarrow> string \<times> string \<Rightarrow> string \<times> string \<Rightarrow> assignment
    \<Rightarrow> error + assignment" where
  "twin_found unit ti tj values =
     for_each (\<lambda>cell. for_each (\<lambda>digit. remove_digit digit cell) (snd ti))
       (filter (\<lambda>cell. cell \<noteq> fst ti \<and> cell \<noteq> fst tj) unit) values"

text \<open>The two index loops, \<^verbatim>\<open>i\<close> over \<^verbatim>\<open>range(len(possible_twins))\<close> and \<^verbatim>\<open>j\<close> over
  \<^verbatim>\<open>range(i+1, len(possible_twins))\<close>; both indices stay below the length.\<close>

definition twins_in_unit :: "string list \<Rightarrow> assignment \<Rightarrow> error + assignment" where
  "twins_in_unit unit values =
     (case possible_twins values unit of
        Inl e \<Rightarrow> Inl e
      | Inr pt \<Rightarrow>
          for_each (\<lambda>i.
            for_each (\<lambda>j values.
                if snd (pt ! i) = snd (pt ! j) then twin_found unit (pt ! i) (pt ! j) values
                else Inr values)
              [i + 1 ..< length pt])
            [0 ..< length pt] values)"

definition naked_twins :: "assignment \<Rightarrow> error + assignment" where
  "naked_twins values = for_each twins_in_unit unitlist values"

subsection \<open>\<^verbatim>\<open>eliminate\<close>\<close>

text \<open>One round of \<^verbatim>\<open>for k, v in values.items()\<close>. The view is live: \<^verbatim>\<open>v\<close> is the value the
  key has when the loop reaches it. The keys do not change during the loop, so the loop
  runs over the keys the dictionary had at the start.\<close>

definition eliminate_box :: "string \<Rightarrow> assignment \<Rightarrow> error + assignment" where
  "eliminate_box k values =
     (case getitem values k of
        Inl e \<Rightarrow> Inl e
      | Inr v \<Rightarrow>
         (case v of
            [d] \<Rightarrow> for_each (remove_digit d) (peers k) values
          | _ \<Rightarrow> Inr values))"

definition eliminate :: "assignment \<Rightarrow> error + assignment" where
  "eliminate values = for_each eliminate_box (map fst values) values"

subsection \<open>\<^verbatim>\<open>only_choice\<close>\<close>

text \<open>\<^verbatim>\<open>[box for box in unit if digit in values[box]]\<close>\<close>

fun places_counter :: "assignment \<Rightarrow> char \<Rightarrow> string list \<Rightarrow> error + string list" where
  "places_counter values digit [] = Inr []"
| "places_counter values digit (box # unit) =
     (case getitem values box of
        Inl e \<Rightarrow> Inl e
      | Inr v \<Rightarrow>
         (case places_counter values digit unit of
            Inl e \<Rightarrow> Inl e
          | Inr rest \<Rightarrow> Inr (if digit \<in> set v then box # rest else rest)))"

definition only_choice_digit :: "string list \<Rightarrow> char \<Rightarrow> assignment \<Rightarrow> error + assignment" where
  "only_choice_digit unit digit values =
     (case places_counter values digit unit of
        Inl e \<Rightarrow> Inl e
      | Inr pc \<Rightarrow>
         (case pc of
            [box] \<Rightarrow> Inr (setitem values box [digit])
          | _ \<Rightarrow> Inr values))"

definition only_choice :: "assignment \<Rightarrow> error + assignment" where
  "only_choice values =
     for_each (\<lambda>unit. for_each (only_choice_digit unit) ''123456789'') unitlist values"


section \<open>Narrowing\<close>

text \<open>
  Every store of the three strategies replaces the value of a key that is present by a
  subsequence of itself. \<open>narrower vs' vs\<close> says so item by item: the same keys in the
  same order, every value a subsequence of the old one. The termination of the reducer
  and of the search rests on it, so it comes before them.
\<close>

definition narrower :: "assignment \<Rightarrow> assignment \<Rightarrow> bool" where
  "narrower vs' vs \<longleftrightarrow>
     list_all2 (\<lambda>p' p. fst p' = fst p \<and> subseq (snd p') (snd p)) vs' vs"

definition total_len :: "assignment \<Rightarrow> nat" where
  "total_len vs = sum_list (map (\<lambda>p. length (snd p)) vs)"

lemma narrower_refl: "narrower vs vs"
  by (simp add: narrower_def list_all2_refl)

lemma narrower_trans: "narrower c b \<Longrightarrow> narrower b a \<Longrightarrow> narrower c a"
  unfolding narrower_def
  by (rule list_all2_trans[where ?P1.0 = "\<lambda>p' p. fst p' = fst p \<and> subseq (snd p') (snd p)"
        and ?P2.0 = "\<lambda>p' p. fst p' = fst p \<and> subseq (snd p') (snd p)"])
    (auto intro: subseq_order.trans)

lemma narrower_keys: "narrower vs' vs \<Longrightarrow> map fst vs' = map fst vs"
  unfolding narrower_def by (induction rule: list_all2_induct) auto

lemma narrower_length: "narrower vs' vs \<Longrightarrow> length vs' = length vs"
  unfolding narrower_def by (rule list_all2_lengthD)

lemma narrower_map_of:
  "narrower vs' vs \<Longrightarrow> map_of vs k = Some s \<Longrightarrow> \<exists>s'. map_of vs' k = Some s' \<and> subseq s' s"
  unfolding narrower_def by (induction rule: list_all2_induct) (auto split: if_splits)

lemma narrower_map_of_rev:
  "narrower vs' vs \<Longrightarrow> map_of vs' k = Some s' \<Longrightarrow> \<exists>s. map_of vs k = Some s \<and> subseq s' s"
  unfolding narrower_def by (induction rule: list_all2_induct) (auto split: if_splits)

lemma narrower_update:
  "map_of vs k = Some s \<Longrightarrow> subseq s' s \<Longrightarrow> narrower (AList.update k s' vs) vs"
  unfolding narrower_def
  by (induction vs) (auto simp: list_all2_refl split: if_splits)

lemma narrower_total_le: "narrower vs' vs \<Longrightarrow> total_len vs' \<le> total_len vs"
  unfolding narrower_def total_len_def
  by (induction rule: list_all2_induct) (auto dest: list_emb_length intro: add_mono)

lemma narrower_total_eq: "narrower vs' vs \<Longrightarrow> total_len vs' = total_len vs \<Longrightarrow> vs' = vs"
  unfolding narrower_def total_len_def
proof (induction rule: list_all2_induct)
  case Nil
  then show ?case by simp
next
  case (Cons p' ps' p ps)
  have l1: "length (snd p') \<le> length (snd p)"
    using Cons.hyps(1) by (auto dest: list_emb_length)
  have l2: "sum_list (map (\<lambda>p. length (snd p)) ps') \<le> sum_list (map (\<lambda>p. length (snd p)) ps)"
    using narrower_total_le[unfolded narrower_def total_len_def, OF Cons.hyps(2)] .
  from l1 l2 Cons.prems have e1: "length (snd p') = length (snd p)"
    and e2: "sum_list (map (\<lambda>p. length (snd p)) ps') = sum_list (map (\<lambda>p. length (snd p)) ps)"
    by simp_all
  from Cons.hyps(1) e1 have "snd p' = snd p" by (auto intro: subseq_same_length)
  with Cons.hyps(1) have "p' = p" by (simp add: prod_eq_iff)
  with Cons.IH[OF e2] show ?case by simp
qed

lemma narrower_total_less: "narrower vs' vs \<Longrightarrow> vs' \<noteq> vs \<Longrightarrow> total_len vs' < total_len vs"
  using narrower_total_le narrower_total_eq by (metis le_neq_implies_less)

lemma narrower_antisym: "narrower vs' vs \<Longrightarrow> narrower vs vs' \<Longrightarrow> vs' = vs"
  by (meson narrower_total_eq narrower_total_le order_antisym)

lemma for_each_narrower:
  assumes "\<And>x s s'. x \<in> set xs \<Longrightarrow> body x s = Inr s' \<Longrightarrow> narrower s' s"
    and "for_each body xs s = Inr s'"
  shows "narrower s' s"
  using assms
proof (induction xs arbitrary: s)
  case Nil
  then show ?case by (simp add: narrower_refl)
next
  case (Cons x xs)
  from Cons.prems(2) obtain s1 where b: "body x s = Inr s1" and r: "for_each body xs s1 = Inr s'"
    by (auto split: sum.splits)
  have "narrower s1 s" using Cons.prems(1)[of x s s1] b by simp
  moreover have "narrower s' s1"
  proof (rule Cons.IH[OF _ r])
    fix y t t' assume "y \<in> set xs" "body y t = Inr t'"
    then show "narrower t' t" using Cons.prems(1)[of y t t'] by simp
  qed
  ultimately show ?case by (rule narrower_trans[rotated])
qed

lemma subseq_replace: "subseq (replace s d) s"
  by (simp add: replace_def)

lemma remove_digit_narrower: "remove_digit d cell vs = Inr vs' \<Longrightarrow> narrower vs' vs"
  by (auto simp: remove_digit_def getitem_def setitem_def subseq_replace
      intro!: narrower_update split: option.splits sum.splits)

lemma eliminate_box_narrower: "eliminate_box k vs = Inr vs' \<Longrightarrow> narrower vs' vs"
  by (auto simp: eliminate_box_def narrower_refl split: sum.splits list.splits
      elim!: for_each_narrower[rotated] dest: remove_digit_narrower)

lemma eliminate_narrower: "eliminate vs = Inr vs' \<Longrightarrow> narrower vs' vs"
  unfolding eliminate_def by (erule for_each_narrower[rotated]) (rule eliminate_box_narrower)

lemma places_counter_sound:
  "places_counter vs d unit = Inr pc \<Longrightarrow> b \<in> set pc \<Longrightarrow> \<exists>s. map_of vs b = Some s \<and> d \<in> set s"
  by (induction unit arbitrary: pc)
    (auto simp: getitem_def split: sum.splits option.splits if_splits)

lemma only_choice_digit_narrower:
  assumes a: "only_choice_digit unit d vs = Inr vs'"
  shows "narrower vs' vs"
proof -
  from a obtain pc where pc: "places_counter vs d unit = Inr pc"
    by (auto simp: only_choice_digit_def split: sum.splits)
  show ?thesis
  proof (cases "\<exists>b. pc = [b]")
    case True
    then obtain b where b: "pc = [b]" by blast
    with places_counter_sound[OF pc, of b] obtain s where s: "map_of vs b = Some s" "d \<in> set s"
      by auto
    from a pc b have "vs' = AList.update b [d] vs" by (simp add: only_choice_digit_def setitem_def)
    with s show ?thesis by (auto intro!: narrower_update simp: subseq_singleton_left)
  next
    case False
    with a pc have "vs' = vs" by (auto simp: only_choice_digit_def split: list.splits)
    then show ?thesis by (simp add: narrower_refl)
  qed
qed

lemma only_choice_narrower: "only_choice vs = Inr vs' \<Longrightarrow> narrower vs' vs"
  unfolding only_choice_def
  by (erule for_each_narrower[rotated], erule for_each_narrower[rotated])
    (rule only_choice_digit_narrower)

lemma twin_found_narrower: "twin_found unit ti tj vs = Inr vs' \<Longrightarrow> narrower vs' vs"
  unfolding twin_found_def
  by (erule for_each_narrower[rotated], erule for_each_narrower[rotated])
    (rule remove_digit_narrower)

lemma twins_in_unit_narrower: "twins_in_unit unit vs = Inr vs' \<Longrightarrow> narrower vs' vs"
  unfolding twins_in_unit_def
  apply (simp split: sum.splits)
  apply (erule for_each_narrower[rotated], erule for_each_narrower[rotated])
  apply (auto split: if_splits simp: narrower_refl dest: twin_found_narrower)
  done

lemma naked_twins_narrower: "naked_twins vs = Inr vs' \<Longrightarrow> narrower vs' vs"
  unfolding naked_twins_def by (erule for_each_narrower[rotated]) (rule twins_in_unit_narrower)

lemma total_len_update_Some:
  "map_of vs k = Some s0 \<Longrightarrow> total_len (AList.update k s vs) + length s0 = total_len vs + length s"
  by (induction vs) (auto simp: total_len_def split: if_splits)

lemma total_len_update_single:
  "total_len (AList.update k [c] vs) = total_len (AList.update k [c'] vs)"
  by (induction vs) (auto simp: total_len_def)


section \<open>The reducer\<close>

text \<open>\<^verbatim>\<open>values.items()\<close>: every key, in order, with the value the dictionary holds for it.\<close>

definition items :: "assignment \<Rightarrow> (string \<times> string) list" where
  "items values = List.map_filter (\<lambda>k. map_option (Pair k) (map_of values k)) (map fst values)"

text \<open>\<^verbatim>\<open>len([box for box in values.keys() if len(values[box]) == 1])\<close>, and the same
  with \<^verbatim>\<open>== 0\<close>.\<close>

definition solved_count :: "assignment \<Rightarrow> nat" where
  "solved_count values = length (filter (\<lambda>(box, v). length v = 1) (items values))"

definition empty_count :: "assignment \<Rightarrow> nat" where
  "empty_count values = length (filter (\<lambda>(box, v). length v = 0) (items values))"

text \<open>The two strategies as \<^verbatim>\<open>reduce_puzzle\<close> writes them out inside its loop (lines 133
  to 146): the loop over the items, then the loop over the units and the digits.\<close>

definition reduce_pass :: "assignment \<Rightarrow> error + assignment" where
  "reduce_pass values =
     (case for_each eliminate_box (map fst values) values of
        Inl e \<Rightarrow> Inl e
      | Inr values' \<Rightarrow>
          for_each (\<lambda>unit. for_each (only_choice_digit unit) ''123456789'') unitlist values')"

lemma reduce_pass_narrower: "reduce_pass vs = Inr vs' \<Longrightarrow> narrower vs' vs"
  unfolding reduce_pass_def
  by (auto split: sum.splits
      dest!: eliminate_narrower[unfolded eliminate_def] only_choice_narrower[unfolded only_choice_def]
      intro: narrower_trans)

text \<open>The loop \<^verbatim>\<open>while not stalled\<close>: \<^verbatim>\<open>stalled\<close> is \<^verbatim>\<open>False\<close> at the start, so the body runs
  at least once; the result is \<open>None\<close> for Python's \<^verbatim>\<open>False\<close>.\<close>

function reduce_puzzle :: "assignment \<Rightarrow> error + assignment option" where
  "reduce_puzzle values =
     (let solved_values_before = solved_count values in
      case reduce_pass values of
        Inl e \<Rightarrow> Inl e
      | Inr values' \<Rightarrow>
          let solved_values_after = solved_count values';
              stalled = (solved_values_before = solved_values_after)
          in if empty_count values' \<noteq> 0 then Inr None
             else if stalled then Inr (Some values')
             else reduce_puzzle values')"
  by pat_completeness auto
termination
proof (relation "measure total_len")
  show "wf (measure total_len)" by simp
next
  fix "values" :: assignment and before values' after stalled
  assume b: "before = solved_count values"
    and p: "reduce_pass values = Inr values'"
    and a: "after = solved_count values'"
    and st: "stalled = (before = after)" "\<not> stalled"
  have n: "narrower values' values" using p by (rule reduce_pass_narrower)
  have "values' \<noteq> values" using b a st by auto
  with n have "total_len values' < total_len values" by (rule narrower_total_less)
  then show "(values', values) \<in> measure total_len" by simp
qed

declare reduce_puzzle.simps [simp del]

lemma reduce_puzzle_cases:
  assumes "reduce_puzzle vs = Inr (Some r)"
  obtains (stalled) "reduce_pass vs = Inr r" "solved_count vs = solved_count r" "empty_count r = 0"
  | (again) v where "reduce_pass vs = Inr v" "solved_count vs \<noteq> solved_count v"
      "empty_count v = 0" "reduce_puzzle v = Inr (Some r)"
  using assms
  by (subst (asm) reduce_puzzle.simps) (auto simp: Let_def split: sum.splits if_splits)

lemma reduce_puzzle_narrower: "reduce_puzzle vs = Inr (Some vs') \<Longrightarrow> narrower vs' vs"
proof (induction vs rule: reduce_puzzle.induct)
  case (1 vs)
  from "1.prems" show ?case
  proof (cases rule: reduce_puzzle_cases)
    case stalled
    then show ?thesis by (simp add: reduce_pass_narrower)
  next
    case (again v)
    have "narrower vs' v" using "1.IH"[OF refl again(1) refl refl] again by simp
    moreover have "narrower v vs" using again(1) by (rule reduce_pass_narrower)
    ultimately show ?thesis by (rule narrower_trans)
  qed
qed

lemma reduce_puzzle_no_empty: "reduce_puzzle vs = Inr (Some vs') \<Longrightarrow> empty_count vs' = 0"
proof (induction vs rule: reduce_puzzle.induct)
  case (1 vs)
  from "1.prems" show ?case
  proof (cases rule: reduce_puzzle_cases)
    case stalled
    then show ?thesis by simp
  next
    case (again v)
    show ?thesis using "1.IH"[OF refl again(1) refl refl] again by simp
  qed
qed


section \<open>The search\<close>

text \<open>The scan of lines 184 to 195, over the items in order; the state is
  \<^verbatim>\<open>(min_length, min_box, solved_values)\<close>, and it starts as \<^verbatim>\<open>(10, None, 0)\<close>.\<close>

fun scan :: "(string \<times> string) list \<Rightarrow> nat \<times> string option \<times> nat
    \<Rightarrow> nat \<times> string option \<times> nat" where
  "scan [] st = st"
| "scan ((box, choices) # rest) (min_length, min_box, solved_values) =
     (if length choices = 1 then scan rest (min_length, min_box, solved_values + 1)
      else if length choices < min_length then scan rest (length choices, Some box, solved_values)
      else scan rest (min_length, min_box, solved_values))"

lemma items_lookup: "(k, s) \<in> set (items vs) \<Longrightarrow> map_of vs k = Some s"
  by (auto simp: items_def List.map_filter_def)

lemma scan_min_box:
  "scan its (m, mb, n) = (m', Some b, n') \<Longrightarrow>
     mb = Some b \<or> (\<exists>s. (b, s) \<in> set its \<and> length s \<noteq> 1)"
  by (induction its "(m, mb, n)" arbitrary: m mb n rule: scan.induct)
    (auto split: if_splits)

text \<open>Python's truth value of what \<^verbatim>\<open>reduce_puzzle\<close> and \<^verbatim>\<open>search\<close> return: \<^verbatim>\<open>False\<close> and
  the empty dictionary are false.\<close>

definition truthy :: "assignment option \<Rightarrow> bool" where
  "truthy r = (case r of None \<Rightarrow> False | Some d \<Rightarrow> d \<noteq> [])"

text \<open>\<^verbatim>\<open>search\<close>, and its loop \<^verbatim>\<open>for choice in choices\<close> as \<open>try_choices\<close>: the loop returns
  at the first choice whose search is true. \<^verbatim>\<open>values[min_box]\<close> with \<^verbatim>\<open>min_box\<close> still
  \<^verbatim>\<open>None\<close> raises \<^verbatim>\<open>KeyError\<close>. \<^verbatim>\<open>dict(values)\<close> is a copy, so the store into it is the
  functional update.\<close>

function search :: "assignment \<Rightarrow> error + assignment option"
  and try_choices :: "assignment \<Rightarrow> string \<Rightarrow> string \<Rightarrow> error + assignment option" where
  "search values0 =
     (case reduce_puzzle values0 of
        Inl e \<Rightarrow> Inl e
      | Inr r \<Rightarrow>
         if \<not> truthy r then Inr None
         else (case r of
            None \<Rightarrow> Inr None
          | Some values \<Rightarrow>
             (case scan (items values) (10, None, 0) of
                (min_length, min_box, solved_values) \<Rightarrow>
                  if solved_values = 81 then Inr (Some values)
                  else (case min_box of
                          None \<Rightarrow> Inl KeyError
                        | Some b \<Rightarrow>
                           (case getitem values b of
                              Inl e \<Rightarrow> Inl e
                            | Inr choices \<Rightarrow> try_choices values b choices)))))"
| "try_choices values min_box [] = Inr None"
| "try_choices values min_box (choice # rest) =
     (case search (setitem values min_box [choice]) of
        Inl e \<Rightarrow> Inl e
      | Inr sol \<Rightarrow> if truthy sol then Inr sol else try_choices values min_box rest)"
  by pat_completeness auto
termination
proof (relation "measures
    [\<lambda>x. case x of Inl v \<Rightarrow> 2 * total_len v
                     | Inr (v, b, cs) \<Rightarrow> 2 * total_len (setitem v b ''x'') + 1,
     \<lambda>x. case x of Inl v \<Rightarrow> 0 | Inr (v, b, cs) \<Rightarrow> length cs]", goal_cases)
  case 1
  show ?case by simp
next
  case (2 values0 r "values" min_length y min_box solved_values b choices)
  have red: "reduce_puzzle values0 = Inr (Some values)" using 2 by simp
  have n: "total_len values \<le> total_len values0"
    using reduce_puzzle_narrower[OF red] by (rule narrower_total_le)
  have "scan (items values) (10, None, 0) = (min_length, Some b, solved_values)"
    using 2 by simp
  from scan_min_box[OF this] obtain s where s: "(b, s) \<in> set (items values)" "length s \<noteq> 1"
    by auto
  have "length s \<noteq> 0"
    using reduce_puzzle_no_empty[OF red] s(1) by (auto simp: empty_count_def filter_empty_conv)
  with s(2) have l: "2 \<le> length s" by (cases s; cases "tl s"; simp)
  have m: "map_of values b = Some s" using s(1) by (rule items_lookup)
  have "total_len (setitem values b ''x'') + length s = total_len values + 1"
    using total_len_update_Some[OF m, of "''x''"] by (simp add: setitem_def)
  with l n show ?case by simp
next
  case (3 "values" min_box choice rest)
  show ?case using total_len_update_single[of min_box choice "values" "CHR ''x''"]
    by (simp add: setitem_def)
next
  case (4 "values" min_box choice rest)
  show ?case by simp
qed

declare search.simps [simp del]

text \<open>Modelled from the spec: \<^verbatim>\<open>utils.grid2values\<close>, the collaborator
  \<^verbatim>\<open>cells_of(grid_string) -> Assignment\<close>; the candidate set of a cell is the single given
  digit, or all nine digits for an unknown cell, and any character that is not a digit
  from 1 to 9 stands for unknown. The cells take the characters of the grid in order.\<close>

definition grid2values :: "string \<Rightarrow> assignment" where
  "grid2values grid =
     map (\<lambda>(box, c). (box, if c \<in> set ''123456789'' then [c] else ''123456789''))
       (zip boxes grid)"

definition solve :: "string \<Rightarrow> error + assignment option" where
  "solve grid = search (grid2values grid)"


section \<open>Equations for evaluation\<close>

text \<open>Equations for evaluation: the test on the length of a list as a function by
  pattern matching, so that the branch not taken is never looked at.\<close>

fun eliminate_fixed :: "string \<Rightarrow> string \<Rightarrow> assignment \<Rightarrow> error + assignment" where
  "eliminate_fixed k [d] values = for_each (remove_digit d) (peers k) values"
| "eliminate_fixed k v values = Inr values"

lemma eliminate_box_code [code]:
  "eliminate_box k values =
     (case getitem values k of Inl e \<Rightarrow> Inl e | Inr v \<Rightarrow> eliminate_fixed k v values)"
  by (auto simp: eliminate_box_def split: sum.splits list.splits)

fun only_place :: "string list \<Rightarrow> char \<Rightarrow> assignment \<Rightarrow> error + assignment" where
  "only_place [box] digit values = Inr (setitem values box [digit])"
| "only_place pc digit values = Inr values"

lemma only_choice_digit_code [code]:
  "only_choice_digit unit digit values =
     (case places_counter values digit unit of
        Inl e \<Rightarrow> Inl e | Inr pc \<Rightarrow> only_place pc digit values)"
  by (auto simp: only_choice_digit_def split: sum.splits list.splits)


section \<open>Notions used in the statements\<close>

text \<open>A dictionary that maps each of the 81 cells, and nothing else, to a string. The
  keys may stand in any order.\<close>

definition dict_ok :: "assignment \<Rightarrow> bool" where
  "dict_ok values \<longleftrightarrow> distinct (map fst values) \<and> set (map fst values) = set boxes"

definition has_boxes :: "assignment \<Rightarrow> bool" where
  "has_boxes vs \<longleftrightarrow> set boxes \<subseteq> fst ` set vs"

text \<open>The puzzle that \<^verbatim>\<open>solution.py\<close> solves when it is run as a script.\<close>

definition diag_sudoku_grid :: string where
  "diag_sudoku_grid =
     ''2.............62....1....7...6..8...3...9...7...6..4...4....8....52.............3''"

text \<open>The dictionaries at the head of the loop of \<^verbatim>\<open>reduce_puzzle\<close> started on \<open>vs\<close>: the
  loop goes round again after a pass that left no cell empty and changed the count of
  solved cells.\<close>

inductive reduce_visits :: "assignment \<Rightarrow> assignment \<Rightarrow> bool" for vs where
  start: "reduce_visits vs vs"
| again: "reduce_visits vs v \<Longrightarrow> reduce_pass v = Inr v' \<Longrightarrow> empty_count v' = 0 \<Longrightarrow>
     solved_count v \<noteq> solved_count v' \<Longrightarrow> reduce_visits vs v'"

text \<open>The grid with no given digit.\<close>

definition blank_grid :: string where
  "blank_grid = replicate 81 CHR ''.''"

text \<open>The blank dictionary with the candidates of one cell gone.\<close>

definition dead_cell :: assignment where
  "dead_cell = setitem (grid2values blank_grid) ''A1'' ''''"

text \<open>The first result, in order, that Python takes for true; an error ends the loop.\<close>

fun first_success :: "(error + assignment option) list \<Rightarrow> error + assignment option" where
  "first_success [] = Inr None"
| "first_success (r # rs) =
     (case r of Inl e \<Rightarrow> Inl e
      | Inr sol \<Rightarrow> if truthy sol then Inr sol else first_success rs)"

text \<open>The cells with a single candidate: the "fixed" cells.\<close>

definition fixed_cells :: "assignment \<Rightarrow> string list" where
  "fixed_cells vs = map fst (filter (\<lambda>(box, v). length v = 1) (items vs))"

text \<open>Every cell with the candidates 1, 2 and 3, but for \<^verbatim>\<open>A1\<close> with 1 and 2 and its peer
  \<^verbatim>\<open>A2\<close> fixed to 1. The first call of \<open>eliminate\<close> passes \<^verbatim>\<open>A1\<close> before \<^verbatim>\<open>A2\<close> fixes
  it to 2; only the second call removes the 2 from the peers of \<^verbatim>\<open>A1\<close>.\<close>

definition half_fixed :: assignment where
  "half_fixed =
     map (\<lambda>b. (b, if b = ''A1'' then ''12'' else if b = ''A2'' then ''1'' else ''123'')) boxes"

text \<open>\<^verbatim>\<open>A1\<close> fixed to 1, every other cell with the candidates 1, 2 and 3.\<close>

definition one_fixed :: assignment where
  "one_fixed = map (\<lambda>b. (b, if b = ''A1'' then ''1'' else ''123'')) boxes"

text \<open>Twins \<^verbatim>\<open>A1\<close>, \<^verbatim>\<open>A5\<close> with the candidates 1 and 2 in the first row, twins \<^verbatim>\<open>D1\<close>,
  \<^verbatim>\<open>E1\<close> with 1 and 3 in the first column, all nine candidates everywhere else.\<close>

definition twin_board :: assignment where
  "twin_board =
     map (\<lambda>b. (b, if b = ''A1'' \<or> b = ''A5'' then ''12''
                else if b = ''D1'' \<or> b = ''E1'' then ''13'' else ''123456789'')) boxes"

text \<open>A unit is complete when each of the digits 1 to 9 is the value of exactly one of its
  cells.\<close>

definition unit_complete :: "assignment \<Rightarrow> string list \<Rightarrow> bool" where
  "unit_complete vs u \<longleftrightarrow>
     (\<forall>d \<in> set ''123456789''. length (filter (\<lambda>b. getitem vs b = Inr [d]) u) = 1)"

text \<open>Candidate strings as the board model hands them out and the strategies keep them:
  digits from 1 to 9, each at most once, in ascending order.\<close>

definition cand_ok :: "assignment \<Rightarrow> bool" where
  "cand_ok vs \<longleftrightarrow> (\<forall>p \<in> set vs. subseq (snd p) ''123456789'')"

text \<open>A solved dictionary: every cell holds one digit from 1 to 9, and every unit is
  complete.\<close>

definition solved :: "assignment \<Rightarrow> bool" where
  "solved vs \<longleftrightarrow>
     (\<forall>p \<in> set vs. \<exists>d \<in> set ''123456789''. snd p = [d])
     \<and> (\<forall>u \<in> set unitlist. unit_complete vs u)"

text \<open>What a search may return for the dictionary \<open>vs\<close>: \<^verbatim>\<open>False\<close>, or a solved dictionary
  that narrows \<open>vs\<close>.\<close>

definition sound_for :: "assignment \<Rightarrow> error + assignment option \<Rightarrow> bool" where
  "sound_for vs res \<longleftrightarrow> res = Inr None \<or> (\<exists>r. res = Inr (Some r) \<and> narrower r vs \<and> solved r)"

text \<open>A check of a unit that reads each of its cells once: the nine values are distinct,
  and each is a single digit.\<close>

definition unit_permutation :: "assignment \<Rightarrow> string list \<Rightarrow> bool" where
  "unit_permutation vs u \<longleftrightarrow>
     (let xs = map (getitem vs) u
      in distinct xs \<and> list_all (\<lambda>x. x \<in> set (map (\<lambda>d. Inr [d]) ''123456789'')) xs)"

text \<open>The solution of \<open>diag_sudoku_grid\<close>, row by row.\<close>

definition solved_diag_grid :: string where
  "solved_diag_grid =
     ''267945381853716249491823576576438192384192657129657438642379815935281764718564923''"

text \<open>Twins in the first row, and before them a cell that they would narrow:
  \<^verbatim>\<open>A1\<close> has the candidates 1 and 3, \<^verbatim>\<open>A2\<close> and \<^verbatim>\<open>A3\<close> have 1 and 2, every other cell
  has all nine.\<close>

definition twins_ahead :: assignment where
  "twins_ahead =
     map (\<lambda>b. (b, if b = ''A1'' then ''13''
                else if b = ''A2'' \<or> b = ''A3'' then ''12'' else ''123456789'')) boxes"


section \<open>Well-formed dictionaries, and the strategies on them\<close>

text \<open>The 29 units: nine distinct boxes each.\<close>

lemma unitlist_ok:
  "list_all (\<lambda>u. distinct u \<and> length u = 9 \<and> list_all (\<lambda>b. b \<in> set boxes) u) unitlist"
  by code_simp

lemma boxes_ok: "distinct boxes \<and> length boxes = 81"
  by code_simp

lemma unit_boxes: "u \<in> set unitlist \<Longrightarrow> b \<in> set u \<Longrightarrow> b \<in> set boxes"
  using unitlist_ok by (auto simp: list_all_iff)

lemma unit_distinct: "u \<in> set unitlist \<Longrightarrow> distinct u"
  using unitlist_ok by (auto simp: list_all_iff)

lemma unit_length: "u \<in> set unitlist \<Longrightarrow> length u = 9"
  using unitlist_ok by (auto simp: list_all_iff)

lemma peers_iff:
  "p \<in> set (peers k) \<longleftrightarrow> p \<noteq> k \<and> (\<exists>u \<in> set unitlist. k \<in> set u \<and> p \<in> set u)"
  by (auto simp: peers_def units_def)

lemma peers_boxes: "p \<in> set (peers k) \<Longrightarrow> p \<in> set boxes"
  by (auto simp: peers_iff dest: unit_boxes)

lemma dict_ok_has_boxes: "dict_ok vs \<Longrightarrow> has_boxes vs"
  by (auto simp: dict_ok_def has_boxes_def)

lemma narrower_has_boxes: "narrower vs' vs \<Longrightarrow> has_boxes vs \<Longrightarrow> has_boxes vs'"
  using narrower_keys[of vs' vs] by (auto simp: has_boxes_def) (metis image_set subsetD)

lemma narrower_dict_ok: "narrower vs' vs \<Longrightarrow> dict_ok vs \<Longrightarrow> dict_ok vs'"
  using narrower_keys[of vs' vs] by (simp add: dict_ok_def)

lemma getitem_box: "has_boxes vs \<Longrightarrow> k \<in> set boxes \<Longrightarrow> \<exists>s. getitem vs k = Inr s \<and> map_of vs k = Some s"
  by (auto simp: has_boxes_def getitem_def map_of_eq_None_iff split: option.splits)

lemma for_each_inv:
  assumes "I s"
    and "\<And>x t. x \<in> set xs \<Longrightarrow> I t \<Longrightarrow> \<exists>t'. body x t = Inr t' \<and> I t'"
  shows "\<exists>s'. for_each body xs s = Inr s' \<and> I s'"
  using assms
proof (induction xs arbitrary: s)
  case Nil
  then show ?case by simp
next
  case (Cons x xs)
  from Cons.prems(2)[of x s] Cons.prems(1) obtain s1 where s1: "body x s = Inr s1" "I s1" by auto
  have "\<exists>s'. for_each body xs s1 = Inr s' \<and> I s'"
  proof (rule Cons.IH[OF s1(2)])
    fix y t assume "y \<in> set xs" "I t"
    then show "\<exists>t'. body y t = Inr t' \<and> I t'" using Cons.prems(2)[of y t] by simp
  qed
  with s1 show ?case by simp
qed

text \<open>A loop whose body succeeds on every dictionary that holds all the boxes, and
  narrows it, succeeds and narrows.\<close>

lemma for_each_total:
  assumes hb: "has_boxes s"
    and step: "\<And>x t. x \<in> set xs \<Longrightarrow> has_boxes t \<Longrightarrow> map fst t = map fst s \<Longrightarrow>
      \<exists>t'. body x t = Inr t' \<and> narrower t' t"
  shows "\<exists>s'. for_each body xs s = Inr s' \<and> narrower s' s"
proof (rule for_each_inv[where I = "\<lambda>t. narrower t s"])
  show "narrower s s" by (rule narrower_refl)
next
  fix x t assume x: "x \<in> set xs" and n: "narrower t s"
  have "has_boxes t" using n hb by (rule narrower_has_boxes)
  moreover have "map fst t = map fst s" using n by (rule narrower_keys)
  ultimately obtain t' where t': "body x t = Inr t'" "narrower t' t" using step[OF x] by blast
  from t'(2) n have "narrower t' s" by (rule narrower_trans)
  with t'(1) show "\<exists>t'. body x t = Inr t' \<and> narrower t' s" by blast
qed

lemma remove_digit_total:
  "has_boxes vs \<Longrightarrow> cell \<in> set boxes \<Longrightarrow> \<exists>vs'. remove_digit d cell vs = Inr vs' \<and> narrower vs' vs"
  using getitem_box[of vs cell] remove_digit_narrower[of d cell vs]
  by (auto simp: remove_digit_def)

lemma getitem_key: "k \<in> fst ` set vs \<Longrightarrow> \<exists>v. getitem vs k = Inr v"
  by (cases "map_of vs k") (auto simp: getitem_def map_of_eq_None_iff)

lemma eliminate_box_total:
  assumes "has_boxes vs" "k \<in> fst ` set vs"
  shows "\<exists>vs'. eliminate_box k vs = Inr vs' \<and> narrower vs' vs"
proof -
  from getitem_key[OF assms(2)] obtain v where v: "getitem vs k = Inr v" by blast
  have "\<exists>vs'. for_each (remove_digit d) (peers k) vs = Inr vs'" for d
    using for_each_total[OF assms(1), of "peers k" "remove_digit d"]
    by (auto intro: remove_digit_total peers_boxes)
  with v have "\<exists>vs'. eliminate_box k vs = Inr vs'"
    by (auto simp: eliminate_box_def split: list.splits)
  then show ?thesis using eliminate_box_narrower by blast
qed

lemma eliminate_total:
  assumes "has_boxes vs"
  shows "\<exists>vs'. eliminate vs = Inr vs' \<and> narrower vs' vs"
  unfolding eliminate_def
proof (rule for_each_total[OF assms])
  fix x t assume "x \<in> set (map fst vs)" "has_boxes t" "map fst t = map fst vs"
  then show "\<exists>t'. eliminate_box x t = Inr t' \<and> narrower t' t"
    by (intro eliminate_box_total) (auto simp flip: set_map)
qed

lemma places_counter_total:
  "has_boxes vs \<Longrightarrow> set unit \<subseteq> set boxes \<Longrightarrow> \<exists>pc. places_counter vs d unit = Inr pc"
proof (induction unit)
  case Nil
  then show ?case by simp
next
  case (Cons b unit)
  then obtain pc where "places_counter vs d unit = Inr pc" by auto
  moreover obtain s where "getitem vs b = Inr s" using getitem_box[of vs b] Cons.prems by auto
  ultimately show ?case by simp
qed

lemma only_choice_digit_total:
  assumes "has_boxes vs" "set unit \<subseteq> set boxes"
  shows "\<exists>vs'. only_choice_digit unit d vs = Inr vs' \<and> narrower vs' vs"
proof -
  from places_counter_total[OF assms] obtain pc where "places_counter vs d unit = Inr pc" by blast
  then have "\<exists>vs'. only_choice_digit unit d vs = Inr vs'"
    by (auto simp: only_choice_digit_def split: list.splits)
  then show ?thesis using only_choice_digit_narrower by blast
qed

lemma only_choice_total:
  assumes "has_boxes vs"
  shows "\<exists>vs'. only_choice vs = Inr vs' \<and> narrower vs' vs"
  unfolding only_choice_def
proof (rule for_each_total[OF assms])
  fix u t assume u: "u \<in> set unitlist" and t: "has_boxes t"
  show "\<exists>t'. for_each (only_choice_digit u) ''123456789'' t = Inr t' \<and> narrower t' t"
  proof (rule for_each_total[OF t])
    fix d t2 assume "has_boxes t2"
    moreover have "set u \<subseteq> set boxes" using u unit_boxes by blast
    ultimately show "\<exists>t'. only_choice_digit u d t2 = Inr t' \<and> narrower t' t2"
      by (rule only_choice_digit_total)
  qed
qed

lemma possible_twins_total:
  "has_boxes vs \<Longrightarrow> set unit \<subseteq> set boxes \<Longrightarrow> \<exists>pt. possible_twins vs unit = Inr pt"
proof (induction unit)
  case Nil
  then show ?case by simp
next
  case (Cons b unit)
  then obtain pt where "possible_twins vs unit = Inr pt" by auto
  moreover obtain s where "getitem vs b = Inr s" using getitem_box[of vs b] Cons.prems by auto
  ultimately show ?case by simp
qed

lemma twin_found_total:
  assumes "has_boxes vs" "set unit \<subseteq> set boxes"
  shows "\<exists>vs'. twin_found unit ti tj vs = Inr vs' \<and> narrower vs' vs"
  unfolding twin_found_def
proof (rule for_each_total[OF assms(1)])
  fix c t assume c: "c \<in> set (filter (\<lambda>cell. cell \<noteq> fst ti \<and> cell \<noteq> fst tj) unit)"
    and t: "has_boxes t"
  from c assms(2) have cb: "c \<in> set boxes" by auto
  show "\<exists>t'. for_each (\<lambda>digit. remove_digit digit c) (snd ti) t = Inr t' \<and> narrower t' t"
    by (rule for_each_total[OF t]) (rule remove_digit_total[OF _ cb])
qed

lemma twins_in_unit_total:
  assumes "has_boxes vs" "set unit \<subseteq> set boxes"
  shows "\<exists>vs'. twins_in_unit unit vs = Inr vs' \<and> narrower vs' vs"
proof -
  from possible_twins_total[OF assms] obtain pt where pt: "possible_twins vs unit = Inr pt"
    by blast
  have "\<exists>vs'. for_each (\<lambda>i. for_each (\<lambda>j values.
                if snd (pt ! i) = snd (pt ! j) then twin_found unit (pt ! i) (pt ! j) values
                else Inr values) [i + 1 ..< length pt]) [0 ..< length pt] vs = Inr vs'
          \<and> narrower vs' vs"
  proof (rule for_each_total[OF assms(1)])
    fix i t assume t: "has_boxes t"
    show "\<exists>t'. for_each (\<lambda>j values.
                if snd (pt ! i) = snd (pt ! j) then twin_found unit (pt ! i) (pt ! j) values
                else Inr values) [i + 1 ..< length pt] t = Inr t' \<and> narrower t' t"
    proof (rule for_each_total[OF t])
      fix j t2 assume "has_boxes t2"
      then show "\<exists>t'. (if snd (pt ! i) = snd (pt ! j) then twin_found unit (pt ! i) (pt ! j) t2
                else Inr t2) = Inr t' \<and> narrower t' t2"
        using twin_found_total[OF _ assms(2), of t2] by (auto simp: narrower_refl)
    qed
  qed
  with pt show ?thesis by (simp add: twins_in_unit_def)
qed

lemma naked_twins_total:
  assumes "has_boxes vs"
  shows "\<exists>vs'. naked_twins vs = Inr vs' \<and> narrower vs' vs"
  unfolding naked_twins_def
proof (rule for_each_total[OF assms])
  fix u t assume "u \<in> set unitlist" "has_boxes t"
  then show "\<exists>t'. twins_in_unit u t = Inr t' \<and> narrower t' t"
    using unit_boxes by (intro twins_in_unit_total) auto
qed


lemma map_fst_zip_take: "map fst (zip xs ys) = take (length ys) xs"
proof (induction xs arbitrary: ys)
  case Nil
  then show ?case by simp
next
  case (Cons x xs)
  then show ?case by (cases ys) simp_all
qed

lemma grid2values_keys: "length grid = 81 \<Longrightarrow> map fst (grid2values grid) = boxes"
proof -
  assume l: "length grid = 81"
  have "map fst (grid2values grid) = map fst (zip boxes grid)"
    by (simp add: grid2values_def case_prod_unfold comp_def)
  also have "\<dots> = take (length grid) boxes" by (rule map_fst_zip_take)
  also have "\<dots> = boxes" using l boxes_ok by simp
  finally show ?thesis .
qed

lemma grid2values_dict_ok: "length grid = 81 \<Longrightarrow> dict_ok (grid2values grid)"
  using boxes_ok by (simp add: dict_ok_def grid2values_keys)


section \<open>The strategies only narrow\<close>

lemma diag_sudoku_grid_length: "length diag_sudoku_grid = 81"
  by (simp add: diag_sudoku_grid_def)

text \<open>
  Claim C9. On a dictionary of the 81 cells each of \<open>eliminate\<close>, \<open>only_choice\<close> and
  \<open>naked_twins\<close> returns (no \<^verbatim>\<open>KeyError\<close>), and what it returns is \<open>narrower\<close> than its
  input: the same keys in the same order, and for every key a candidate string that is a
  subsequence of the one the input had, so no digit is added and the digits that stay
  keep their order.
\<close>

theorem strategies_only_narrow:
  assumes "dict_ok vs"
  shows "(\<exists>e. eliminate vs = Inr e \<and> narrower e vs)
       \<and> (\<exists>c. only_choice vs = Inr c \<and> narrower c vs)
       \<and> (\<exists>t. naked_twins vs = Inr t \<and> narrower t vs)"
  using dict_ok_has_boxes[OF assms] eliminate_total only_choice_total naked_twins_total
  by simp

theorem strategies_only_narrow_witness:
  "dict_ok (grid2values diag_sudoku_grid)
   \<and> (\<exists>e. eliminate (grid2values diag_sudoku_grid) = Inr e
          \<and> narrower e (grid2values diag_sudoku_grid))
   \<and> (\<exists>c. only_choice (grid2values diag_sudoku_grid) = Inr c
          \<and> narrower c (grid2values diag_sudoku_grid))
   \<and> (\<exists>t. naked_twins (grid2values diag_sudoku_grid) = Inr t
          \<and> narrower t (grid2values diag_sudoku_grid))"
proof -
  have h: "dict_ok (grid2values diag_sudoku_grid)"
    by (rule grid2values_dict_ok) (rule diag_sudoku_grid_length)
  show ?thesis using h strategies_only_narrow[OF h] by simp
qed


section \<open>The reducer on well-formed dictionaries\<close>

lemma items_distinct: "distinct (map fst vs) \<Longrightarrow> items vs = vs"
proof -
  assume d: "distinct (map fst vs)"
  have "List.map_filter (\<lambda>k. map_option (Pair k) (map_of vs k)) (map fst ys) = ys"
    if "set ys \<subseteq> set vs" for ys
    using that
  proof (induction ys)
    case Nil
    then show ?case by simp
  next
    case (Cons p ys)
    then have "map_of vs (fst p) = Some (snd p)" using d by simp
    with Cons show ?case by simp
  qed
  then show ?thesis by (simp add: items_def)
qed

lemma dict_ok_items: "dict_ok vs \<Longrightarrow> items vs = vs"
  by (simp add: dict_ok_def items_distinct)

lemma dict_ok_length: "dict_ok vs \<Longrightarrow> length vs = 81"
proof -
  assume a: "dict_ok vs"
  then have "length (map fst vs) = card (set (map fst vs))"
    using distinct_card[of "map fst vs"] by (simp add: dict_ok_def)
  also have "\<dots> = card (set boxes)" using a by (simp add: dict_ok_def)
  also have "\<dots> = 81" using boxes_ok by (simp add: distinct_card)
  finally show ?thesis by simp
qed

lemma solved_count_le: "dict_ok vs \<Longrightarrow> solved_count vs \<le> 81"
  using dict_ok_length[of vs] length_filter_le[of "\<lambda>(box, v). length v = 1" vs]
  by (simp add: solved_count_def dict_ok_items)

lemma subseq_single: "subseq s [c] \<Longrightarrow> s = [] \<or> s = [c]"
  by (cases s) (auto simp: subseq_Cons' split: if_splits)

lemma narrower_singles:
  assumes "narrower vs' vs" "\<forall>p \<in> set vs'. snd p \<noteq> []"
  shows "length (filter (\<lambda>(box, v). length v = 1) vs)
       \<le> length (filter (\<lambda>(box, v). length v = 1) vs')"
  using assms unfolding narrower_def
proof (induction rule: list_all2_induct)
  case Nil
  then show ?case by simp
next
  case (Cons p' ps' p ps)
  have ih: "length (filter (\<lambda>(box, v). length v = 1) ps)
       \<le> length (filter (\<lambda>(box, v). length v = 1) ps')"
    using Cons by simp
  have "length (snd p) = 1 \<Longrightarrow> length (snd p') = 1"
  proof -
    assume "length (snd p) = 1"
    then obtain c where "snd p = [c]" by (cases "snd p") auto
    with Cons.hyps(1) have "snd p' = [] \<or> snd p' = [c]" by (auto dest: subseq_single)
    with Cons.prems show ?thesis by auto
  qed
  with ih show ?case by (auto simp: case_prod_unfold)
qed

lemma empty_count_zero: "dict_ok vs \<Longrightarrow> empty_count vs = 0 \<longleftrightarrow> (\<forall>p \<in> set vs. snd p \<noteq> [])"
  by (auto simp: empty_count_def dict_ok_items filter_empty_conv)

lemma pass_count_mono:
  assumes "dict_ok vs" "narrower vs' vs" "empty_count vs' = 0"
  shows "solved_count vs \<le> solved_count vs'"
proof -
  have ok': "dict_ok vs'" using assms(2,1) by (rule narrower_dict_ok)
  with assms(3) have "\<forall>p \<in> set vs'. snd p \<noteq> []" by (simp add: empty_count_zero)
  from narrower_singles[OF assms(2) this] show ?thesis
    using assms(1) ok' by (simp add: solved_count_def dict_ok_items)
qed

lemma reduce_pass_strategies:
  "reduce_pass vs = (case eliminate vs of Inl e \<Rightarrow> Inl e | Inr vs' \<Rightarrow> only_choice vs')"
  by (simp add: reduce_pass_def eliminate_def only_choice_def split: sum.splits)

lemma reduce_pass_total:
  assumes "has_boxes vs"
  shows "\<exists>vs'. reduce_pass vs = Inr vs' \<and> narrower vs' vs"
proof -
  from eliminate_total[OF assms] obtain e where e: "eliminate vs = Inr e" "narrower e vs" by blast
  from e(2) assms have "has_boxes e" by (rule narrower_has_boxes)
  from only_choice_total[OF this] obtain c where c: "only_choice e = Inr c" "narrower c e" by blast
  from c(2) e(2) have "narrower c vs" by (rule narrower_trans)
  with e(1) c(1) show ?thesis by (simp add: reduce_pass_strategies)
qed

lemma reduce_puzzle_total: "has_boxes vs \<Longrightarrow> \<exists>r. reduce_puzzle vs = Inr r"
proof (induction vs rule: reduce_puzzle.induct)
  case (1 vs)
  from reduce_pass_total[OF "1.prems"] obtain v where v: "reduce_pass vs = Inr v" "narrower v vs"
    by blast
  from v(2) "1.prems" have hb: "has_boxes v" by (rule narrower_has_boxes)
  show ?case
  proof (cases "empty_count v \<noteq> 0 \<or> solved_count vs = solved_count v")
    case True
    with v(1) show ?thesis by (subst reduce_puzzle.simps) (auto simp: Let_def)
  next
    case False
    then have "\<exists>r. reduce_puzzle v = Inr r" using "1.IH"[OF refl v(1) refl refl] hb by simp
    with v(1) False show ?thesis by (subst reduce_puzzle.simps) (auto simp: Let_def)
  qed
qed

lemma reduce_visits_narrower: "reduce_visits vs v \<Longrightarrow> narrower v vs"
  by (induction rule: reduce_visits.induct)
    (auto intro: narrower_refl narrower_trans dest: reduce_pass_narrower)

text \<open>
  Claim C3. On a dictionary of the 81 cells \<open>reduce_puzzle\<close> returns: it is a total
  function (its loop is shown to stop for every input where it is defined), and it raises
  no \<^verbatim>\<open>KeyError\<close>. \<open>reduce_visits vs v\<close> says that the loop started on \<open>vs\<close> reaches its
  head with the dictionary \<open>v\<close>. From every such \<open>v\<close>, a pass that leaves no cell empty
  does not lower the count of solved cells, and the count stays at most 81.
\<close>

theorem reduce_puzzle_terminates:
  assumes "dict_ok vs"
  shows "(\<exists>r. reduce_puzzle vs = Inr r)
       \<and> (\<forall>v v'. reduce_visits vs v \<and> reduce_pass v = Inr v' \<and> empty_count v' = 0
            \<longrightarrow> solved_count v \<le> solved_count v' \<and> solved_count v' \<le> 81)"
proof (intro conjI allI impI)
  show "\<exists>r. reduce_puzzle vs = Inr r"
    using assms by (intro reduce_puzzle_total dict_ok_has_boxes)
next
  fix v v'
  assume a: "reduce_visits vs v \<and> reduce_pass v = Inr v' \<and> empty_count v' = 0"
  then have ok: "dict_ok v" using assms by (auto intro: narrower_dict_ok reduce_visits_narrower)
  have n: "narrower v' v" using a by (auto intro: reduce_pass_narrower)
  show "solved_count v \<le> solved_count v'" using ok n a by (auto intro: pass_count_mono)
  show "solved_count v' \<le> 81" using n ok by (auto intro: solved_count_le narrower_dict_ok)
qed

lemma for_each_id: "(\<And>x. x \<in> set xs \<Longrightarrow> body x s = Inr s) \<Longrightarrow> for_each body xs s = Inr s"
  by (induction xs) auto

lemma eliminate_box_unsolved:
  "map_of vs k = Some v \<Longrightarrow> length v \<noteq> 1 \<Longrightarrow> eliminate_box k vs = Inr vs"
  by (auto simp: eliminate_box_def getitem_def split: list.splits)

lemma eliminate_no_singles:
  assumes "distinct (map fst vs)" "\<forall>p \<in> set vs. length (snd p) \<noteq> 1"
  shows "eliminate vs = Inr vs"
  unfolding eliminate_def
proof (rule for_each_id)
  fix k assume "k \<in> set (map fst vs)"
  then obtain v where v: "(k, v) \<in> set vs" by auto
  with assms(1) have "map_of vs k = Some v" by simp
  moreover have "length v \<noteq> 1" using assms(2) v by auto
  ultimately show "eliminate_box k vs = Inr vs" by (rule eliminate_box_unsolved)
qed

lemma places_counter_filter:
  "\<forall>b \<in> set unit. map_of vs b \<noteq> None \<Longrightarrow>
     places_counter vs d unit = Inr (filter (\<lambda>b. \<exists>s. map_of vs b = Some s \<and> d \<in> set s) unit)"
  by (induction unit) (auto simp: getitem_def split: option.splits)

lemma only_choice_digit_many:
  assumes "\<forall>b \<in> set unit. \<exists>s. map_of vs b = Some s \<and> d \<in> set s" "length unit \<noteq> 1"
  shows "only_choice_digit unit d vs = Inr vs"
proof -
  have "places_counter vs d unit = Inr (filter (\<lambda>b. \<exists>s. map_of vs b = Some s \<and> d \<in> set s) unit)"
    using assms(1) by (intro places_counter_filter) auto
  moreover have "filter (\<lambda>b. \<exists>s. map_of vs b = Some s \<and> d \<in> set s) unit = unit"
    using assms(1) by (auto simp: filter_id_conv)
  ultimately show ?thesis using assms(2)
    by (cases unit; cases "tl unit") (auto simp: only_choice_digit_def)
qed

lemma blank_dict_ok: "dict_ok (grid2values blank_grid)"
  by (rule grid2values_dict_ok) (simp add: blank_grid_def)

lemma blank_values: "p \<in> set (grid2values blank_grid) \<Longrightarrow> snd p = ''123456789''"
  by (auto simp: grid2values_def blank_grid_def set_zip)

lemma blank_lookup:
  assumes "k \<in> set boxes"
  shows "map_of (grid2values blank_grid) k = Some ''123456789''"
proof -
  from assms have "k \<in> fst ` set (grid2values blank_grid)"
    using blank_dict_ok by (simp add: dict_ok_def)
  then obtain v where v: "(k, v) \<in> set (grid2values blank_grid)" by auto
  with blank_values[of "(k, v)"] have "v = ''123456789''" by simp
  with v blank_dict_ok show ?thesis by (simp add: dict_ok_def)
qed

lemma blank_reduce_pass: "reduce_pass (grid2values blank_grid) = Inr (grid2values blank_grid)"
proof -
  let ?b = "grid2values blank_grid"
  have e: "eliminate ?b = Inr ?b"
    using blank_dict_ok blank_values by (intro eliminate_no_singles) (auto simp: dict_ok_def)
  have "only_choice ?b = Inr ?b"
    unfolding only_choice_def
  proof (rule for_each_id, rule for_each_id)
    fix u d assume u: "u \<in> set unitlist" and d: "d \<in> set ''123456789''"
    show "only_choice_digit u d ?b = Inr ?b"
    proof (rule only_choice_digit_many)
      show "\<forall>b\<in>set u. \<exists>s. map_of ?b b = Some s \<and> d \<in> set s"
        using blank_lookup unit_boxes[OF u] d by auto
      show "length u \<noteq> 1" using unit_length[OF u] by simp
    qed
  qed
  with e show ?thesis by (simp add: reduce_pass_strategies)
qed

lemma blank_counts:
  "solved_count (grid2values blank_grid) = 0" "empty_count (grid2values blank_grid) = 0"
proof -
  have "\<forall>p \<in> set (grid2values blank_grid). length (snd p) = 9"
    using blank_values by simp
  then show "solved_count (grid2values blank_grid) = 0" "empty_count (grid2values blank_grid) = 0"
    by (auto simp: solved_count_def empty_count_def dict_ok_items[OF blank_dict_ok]
        filter_empty_conv)
qed

lemma blank_reduce_puzzle:
  "reduce_puzzle (grid2values blank_grid) = Inr (Some (grid2values blank_grid))"
  by (subst reduce_puzzle.simps) (simp add: blank_reduce_pass blank_counts)

text \<open>
  The blank grid satisfies the hypotheses: all 81 cells are there, the first pass
  returns, and it leaves no cell empty.
\<close>

theorem reduce_puzzle_terminates_witness:
  "dict_ok (grid2values blank_grid)
   \<and> (\<exists>r. reduce_puzzle (grid2values blank_grid) = Inr r)
   \<and> reduce_visits (grid2values blank_grid) (grid2values blank_grid)
   \<and> reduce_pass (grid2values blank_grid) = Inr (grid2values blank_grid)
   \<and> empty_count (grid2values blank_grid) = 0
   \<and> solved_count (grid2values blank_grid) \<le> solved_count (grid2values blank_grid)
   \<and> solved_count (grid2values blank_grid) \<le> 81"
  using reduce_puzzle_terminates[OF blank_dict_ok] blank_dict_ok blank_reduce_pass blank_counts
    reduce_visits.start[of "grid2values blank_grid"]
  by simp

lemma narrower_empty:
  assumes "narrower vs' vs" "\<exists>p \<in> set vs. snd p = []"
  shows "\<exists>p \<in> set vs'. snd p = []"
  using assms unfolding narrower_def
  by (induction rule: list_all2_induct) auto

lemma empty_persists:
  assumes "dict_ok vs" "narrower vs' vs" "empty_count vs \<noteq> 0"
  shows "empty_count vs' \<noteq> 0"
proof -
  have ok': "dict_ok vs'" using assms(2,1) by (rule narrower_dict_ok)
  from assms(1,3) have "\<exists>p \<in> set vs. snd p = []" by (simp add: empty_count_zero)
  with assms(2) have "\<exists>p \<in> set vs'. snd p = []" by (rule narrower_empty)
  with ok' show ?thesis by (simp add: empty_count_zero)
qed

lemma reduce_visits_result: "reduce_visits vs v \<Longrightarrow> reduce_puzzle v = reduce_puzzle vs"
proof (induction rule: reduce_visits.induct)
  case start
  show ?case by simp
next
  case (again v v')
  have "reduce_puzzle v = reduce_puzzle v'"
    using again.hyps(2,3,4) by (subst reduce_puzzle.simps) (simp add: Let_def)
  with again.IH show ?case by simp
qed

lemma reduce_visits_step_left:
  assumes "reduce_pass vs = Inr v" "empty_count v = 0" "solved_count vs \<noteq> solved_count v"
    and "reduce_visits v w"
  shows "reduce_visits vs w"
  using assms(4)
proof (induction rule: reduce_visits.induct)
  case start
  show ?case using reduce_visits.again[OF reduce_visits.start assms(1,2,3)] .
next
  case (again w w')
  then show ?case by (auto intro: reduce_visits.again)
qed

lemma reduce_puzzle_final:
  "reduce_puzzle vs = Inr (Some r) \<Longrightarrow>
     \<exists>v. reduce_visits vs v \<and> reduce_pass v = Inr r \<and> solved_count v = solved_count r
        \<and> empty_count r = 0"
proof (induction vs rule: reduce_puzzle.induct)
  case (1 vs)
  from "1.prems" show ?case
  proof (cases rule: reduce_puzzle_cases)
    case stalled
    then show ?thesis using reduce_visits.start[of vs] by blast
  next
    case (again v)
    from "1.IH"[OF refl again(1) refl refl] again obtain w where
      w: "reduce_visits v w" "reduce_pass w = Inr r" "solved_count w = solved_count r"
        "empty_count r = 0" by auto
    from reduce_visits_step_left[OF again(1) again(3) again(2) w(1)] w show ?thesis by blast
  qed
qed

text \<open>
  Claim C4. On a dictionary of the 81 cells: a pass of the loop is \<open>eliminate\<close> followed by
  \<open>only_choice\<close>; the loop ends with failure when the pass left an empty cell, ends with
  the dictionary when the pass did not raise the count of solved cells, and goes round
  again otherwise; a pass, from any dictionary the loop reaches, that leaves a cell empty
  makes the result \<^verbatim>\<open>False\<close>, and so does an empty cell in the input; a dictionary that
  is returned has no empty cell, and it is the outcome of a pass that left the count of
  solved cells as it was.
\<close>

theorem reduce_puzzle_contract:
  assumes "dict_ok vs"
  shows "reduce_pass vs = (case eliminate vs of Inl e \<Rightarrow> Inl e | Inr v \<Rightarrow> only_choice v)
       \<and> (\<exists>v. reduce_pass vs = Inr v
              \<and> reduce_puzzle vs =
                  (if empty_count v \<noteq> 0 then Inr None
                   else if solved_count v \<le> solved_count vs then Inr (Some v)
                   else reduce_puzzle v))
       \<and> (\<forall>v v'. reduce_visits vs v \<and> reduce_pass v = Inr v' \<and> empty_count v' \<noteq> 0
              \<longrightarrow> reduce_puzzle vs = Inr None)
       \<and> (empty_count vs \<noteq> 0 \<longrightarrow> reduce_puzzle vs = Inr None)
       \<and> (\<forall>r. reduce_puzzle vs = Inr (Some r)
              \<longrightarrow> empty_count r = 0
                \<and> (\<exists>v. reduce_visits vs v \<and> reduce_pass v = Inr r
                       \<and> solved_count r = solved_count v))"
proof -
  have hb: "has_boxes vs" using assms by (rule dict_ok_has_boxes)
  from reduce_pass_total[OF hb] obtain v where v: "reduce_pass vs = Inr v" "narrower v vs"
    by blast
  have unroll: "reduce_puzzle vs =
      (if empty_count v \<noteq> 0 then Inr None
       else if solved_count v \<le> solved_count vs then Inr (Some v)
       else reduce_puzzle v)"
  proof (cases "empty_count v = 0")
    case True
    then have "solved_count vs \<le> solved_count v" using assms v(2) by (intro pass_count_mono)
    with True v(1) show ?thesis by (subst reduce_puzzle.simps) (auto simp: Let_def)
  next
    case False
    with v(1) show ?thesis by (subst reduce_puzzle.simps) (auto simp: Let_def)
  qed
  have c: "reduce_puzzle vs = Inr None"
    if "reduce_visits vs w \<and> reduce_pass w = Inr w' \<and> empty_count w' \<noteq> 0" for w w'
  proof -
    from that have "reduce_puzzle w = Inr None"
      by (subst reduce_puzzle.simps) (simp add: Let_def)
    with that reduce_visits_result[of vs w] show ?thesis by simp
  qed
  have d: "reduce_puzzle vs = Inr None" if "empty_count vs \<noteq> 0"
  proof -
    from empty_persists[OF assms v(2) that] have "empty_count v \<noteq> 0" .
    with unroll show ?thesis by simp
  qed
  have e: "empty_count r = 0
      \<and> (\<exists>w. reduce_visits vs w \<and> reduce_pass w = Inr r \<and> solved_count r = solved_count w)"
    if "reduce_puzzle vs = Inr (Some r)" for r
    using reduce_puzzle_final[OF that] by auto
  show ?thesis
  proof (intro conjI allI impI)
    show "reduce_pass vs = (case eliminate vs of Inl e \<Rightarrow> Inl e | Inr v \<Rightarrow> only_choice v)"
      by (rule reduce_pass_strategies)
    show "\<exists>v. reduce_pass vs = Inr v
              \<and> reduce_puzzle vs =
                  (if empty_count v \<noteq> 0 then Inr None
                   else if solved_count v \<le> solved_count vs then Inr (Some v)
                   else reduce_puzzle v)"
      by (intro exI[of _ v] conjI) (rule v(1), rule unroll)
  next
    fix w w' assume "reduce_visits vs w \<and> reduce_pass w = Inr w' \<and> empty_count w' \<noteq> 0"
    then show "reduce_puzzle vs = Inr None" by (rule c)
  next
    assume "empty_count vs \<noteq> 0"
    then show "reduce_puzzle vs = Inr None" by (rule d)
  next
    fix r assume r: "reduce_puzzle vs = Inr (Some r)"
    from e[OF r] show "empty_count r = 0" by (rule conjunct1)
    from e[OF r] show "\<exists>v. reduce_visits vs v \<and> reduce_pass v = Inr r
        \<and> solved_count r = solved_count v" by (rule conjunct2)
  qed
qed

lemma dead_cell_dict_ok: "dict_ok dead_cell"
proof -
  have "''A1'' \<in> set boxes" by code_simp
  then have "map_of (grid2values blank_grid) ''A1'' = Some ''123456789''" by (rule blank_lookup)
  then have "narrower dead_cell (grid2values blank_grid)"
    unfolding dead_cell_def setitem_def by (rule narrower_update) simp
  then show ?thesis using blank_dict_ok by (rule narrower_dict_ok)
qed

lemma dead_cell_empty: "empty_count dead_cell \<noteq> 0"
proof -
  have "map_of dead_cell ''A1'' = Some ''''"
    by (simp add: dead_cell_def setitem_def update_conv')
  then have "(''A1'', '''') \<in> set dead_cell" by (rule map_of_SomeD)
  then have "\<exists>p \<in> set dead_cell. snd p = []" by (rule bexI[rotated]) simp
  then show ?thesis using empty_count_zero[OF dead_cell_dict_ok] by blast
qed

text \<open>
  The blank grid is returned as it is; the blank grid with the candidates of one cell
  removed gives \<^verbatim>\<open>False\<close>.
\<close>

theorem reduce_puzzle_contract_witness:
  "dict_ok (grid2values blank_grid)
   \<and> reduce_puzzle (grid2values blank_grid) = Inr (Some (grid2values blank_grid))
   \<and> empty_count (grid2values blank_grid) = 0
   \<and> reduce_visits (grid2values blank_grid) (grid2values blank_grid)
   \<and> reduce_pass (grid2values blank_grid) = Inr (grid2values blank_grid)
   \<and> dict_ok dead_cell
   \<and> empty_count dead_cell \<noteq> 0
   \<and> reduce_puzzle dead_cell = Inr None
   \<and> (\<exists>v. reduce_visits dead_cell dead_cell \<and> reduce_pass dead_cell = Inr v
          \<and> empty_count v \<noteq> 0)"
proof -
  note c = reduce_puzzle_contract[OF dead_cell_dict_ok]
  have d: "reduce_puzzle dead_cell = Inr None"
    using c[THEN conjunct2, THEN conjunct2, THEN conjunct2, THEN conjunct1] dead_cell_empty
    by simp
  from c[THEN conjunct2, THEN conjunct1] obtain v where v: "reduce_pass dead_cell = Inr v"
    by blast
  have "narrower v dead_cell" using v by (rule reduce_pass_narrower)
  from empty_persists[OF dead_cell_dict_ok this dead_cell_empty] have ev: "empty_count v \<noteq> 0" .
  have "\<exists>v. reduce_visits dead_cell dead_cell \<and> reduce_pass dead_cell = Inr v
          \<and> empty_count v \<noteq> 0"
    using v ev reduce_visits.start[of dead_cell] by blast
  then show ?thesis
    using blank_dict_ok blank_reduce_puzzle blank_counts(2) blank_reduce_pass
      dead_cell_dict_ok dead_cell_empty d reduce_visits.start[of "grid2values blank_grid"]
    by (intro conjI) assumption+
qed


section \<open>The branching of the search\<close>

lemma scan_solved:
  "scan its (m, mb, n) = (m', mb', n') \<Longrightarrow>
     n' = n + length (filter (\<lambda>(box, v). length v = 1) its)"
  by (induction its "(m, mb, n)" arbitrary: m mb n rule: scan.induct)
    (auto split: if_splits)

lemma scan_unchanged:
  "\<forall>p \<in> set its. length (snd p) = 1 \<or> m \<le> length (snd p) \<Longrightarrow>
     \<exists>n'. scan its (m, mb, n) = (m, mb, n')"
  by (induction its "(m, mb, n)" arbitrary: n rule: scan.induct) auto

lemma scan_select:
  assumes "scan its (m, mb, n) = (m', mb', n')"
    and "\<exists>p \<in> set its. length (snd p) \<noteq> 1 \<and> length (snd p) < m"
  shows "\<exists>pre b s post. its = pre @ (b, s) # post \<and> mb' = Some b \<and> m' = length s
      \<and> length s \<noteq> 1 \<and> length s < m
      \<and> (\<forall>p \<in> set pre. length (snd p) = 1 \<or> length s < length (snd p))
      \<and> (\<forall>p \<in> set post. length (snd p) = 1 \<or> length s \<le> length (snd p))"
  using assms
proof (induction its arbitrary: m mb n)
  case Nil
  then show ?case by simp
next
  case (Cons kc rest)
  obtain k c where kc: "kc = (k, c)" by (cases kc)
  consider (solved) "length c = 1"
    | (better) "length c \<noteq> 1" "length c < m"
    | (worse) "length c \<noteq> 1" "m \<le> length c"
    by linarith
  then show ?case
  proof cases
    case solved
    with Cons.prems kc have sc: "scan rest (m, mb, n + 1) = (m', mb', n')"
      and ex: "\<exists>p \<in> set rest. length (snd p) \<noteq> 1 \<and> length (snd p) < m" by auto
    from Cons.IH[OF sc ex] obtain pre b s post where
      r: "rest = pre @ (b, s) # post" "mb' = Some b" "m' = length s" "length s \<noteq> 1" "length s < m"
        "\<forall>p \<in> set pre. length (snd p) = 1 \<or> length s < length (snd p)"
        "\<forall>p \<in> set post. length (snd p) = 1 \<or> length s \<le> length (snd p)" by blast
    have "kc # rest = (kc # pre) @ (b, s) # post" using r(1) by simp
    moreover have "\<forall>p \<in> set (kc # pre). length (snd p) = 1 \<or> length s < length (snd p)"
      using r(6) solved kc by simp
    ultimately show ?thesis using r(2,3,4,5,7) by blast
  next
    case worse
    with Cons.prems kc have sc: "scan rest (m, mb, n) = (m', mb', n')"
      and ex: "\<exists>p \<in> set rest. length (snd p) \<noteq> 1 \<and> length (snd p) < m" by auto
    from Cons.IH[OF sc ex] obtain pre b s post where
      r: "rest = pre @ (b, s) # post" "mb' = Some b" "m' = length s" "length s \<noteq> 1" "length s < m"
        "\<forall>p \<in> set pre. length (snd p) = 1 \<or> length s < length (snd p)"
        "\<forall>p \<in> set post. length (snd p) = 1 \<or> length s \<le> length (snd p)" by blast
    have "kc # rest = (kc # pre) @ (b, s) # post" using r(1) by simp
    moreover have "\<forall>p \<in> set (kc # pre). length (snd p) = 1 \<or> length s < length (snd p)"
      using r(5,6) worse kc by simp
    ultimately show ?thesis using r(2,3,4,5,7) by blast
  next
    case better
    with Cons.prems kc have sc: "scan rest (length c, Some k, n) = (m', mb', n')" by simp
    show ?thesis
    proof (cases "\<exists>p \<in> set rest. length (snd p) \<noteq> 1 \<and> length (snd p) < length c")
      case True
      from Cons.IH[OF sc True] obtain pre b s post where
        r: "rest = pre @ (b, s) # post" "mb' = Some b" "m' = length s" "length s \<noteq> 1"
          "length s < length c"
          "\<forall>p \<in> set pre. length (snd p) = 1 \<or> length s < length (snd p)"
          "\<forall>p \<in> set post. length (snd p) = 1 \<or> length s \<le> length (snd p)" by blast
      have "kc # rest = (kc # pre) @ (b, s) # post" using r(1) by simp
      moreover have "\<forall>p \<in> set (kc # pre). length (snd p) = 1 \<or> length s < length (snd p)"
        using r(5,6) kc by simp
      moreover have "length s < m" using r(5) better(2) by simp
      ultimately show ?thesis using r(2,3,4,7) by blast
    next
      case False
      then have un: "\<forall>p \<in> set rest. length (snd p) = 1 \<or> length c \<le> length (snd p)"
        by (auto simp: not_less)
      from scan_unchanged[OF un, of "Some k" n] sc have "m' = length c" "mb' = Some k" by auto
      moreover have "kc # rest = [] @ (k, c) # rest" using kc by simp
      ultimately show ?thesis using better un
        by (intro exI[of _ "[]"] exI[of _ k] exI[of _ c] exI[of _ rest]) simp
    qed
  qed
qed

lemma try_choices_first_success:
  "try_choices vs b cs = first_success (map (\<lambda>c. search (setitem vs b [c])) cs)"
  by (induction cs) (auto split: sum.splits)

lemma unsolved_exists:
  assumes "dict_ok vs" "solved_count vs < 81"
  shows "\<exists>p \<in> set vs. length (snd p) \<noteq> 1"
proof (rule ccontr)
  assume "\<not> ?thesis"
  then have "filter (\<lambda>(box, v). length v = 1) vs = vs" by (auto simp: filter_id_conv)
  then have "solved_count vs = length vs"
    using assms(1) by (simp add: solved_count_def dict_ok_items)
  with assms dict_ok_length[of vs] show False by simp
qed

lemma narrower_max_length:
  assumes "narrower vs' vs" "\<forall>p \<in> set vs. length (snd p) \<le> n"
  shows "\<forall>p \<in> set vs'. length (snd p) \<le> n"
  using assms unfolding narrower_def
proof (induction rule: list_all2_induct)
  case Nil
  then show ?case by simp
next
  case (Cons p' ps' p ps)
  then have "length (snd p') \<le> length (snd p)" by (auto dest: list_emb_length)
  with Cons show ?case by auto
qed

text \<open>What the scan finds in a dictionary that the reducer returned with a cell unsolved.\<close>

lemma search_branch:
  assumes ok: "dict_ok vs" and len: "\<forall>p \<in> set vs. length (snd p) \<le> 9"
    and red: "reduce_puzzle vs = Inr (Some vs')" and uns: "solved_count vs' < 81"
  shows "\<exists>pre b choices post m n. vs' = pre @ (b, choices) # post
      \<and> scan (items vs') (10, None, 0) = (m, Some b, n) \<and> n \<noteq> 81
      \<and> getitem vs' b = Inr choices
      \<and> 2 \<le> length choices \<and> length choices \<le> 9
      \<and> (\<forall>p \<in> set pre. length (snd p) = 1 \<or> length choices < length (snd p))
      \<and> (\<forall>p \<in> set post. length (snd p) = 1 \<or> length choices \<le> length (snd p))
      \<and> search vs = try_choices vs' b choices"
proof -
  have n: "narrower vs' vs" using red by (rule reduce_puzzle_narrower)
  have ok': "dict_ok vs'" using n ok by (rule narrower_dict_ok)
  have len': "\<forall>p \<in> set vs'. length (snd p) \<le> 9" using n len by (rule narrower_max_length)
  have ne: "\<forall>p \<in> set vs'. snd p \<noteq> []"
    using reduce_puzzle_no_empty[OF red] ok' by (simp add: empty_count_zero)
  obtain m mb k where sc: "scan (items vs') (10, None, 0) = (m, mb, k)"
    by (cases "scan (items vs') (10, None, 0)") auto
  have k: "k = solved_count vs'" using scan_solved[OF sc] by (simp add: solved_count_def)
  from unsolved_exists[OF ok' uns] obtain q where q: "q \<in> set vs'" "length (snd q) \<noteq> 1" by blast
  with len' have "\<exists>p \<in> set (items vs'). length (snd p) \<noteq> 1 \<and> length (snd p) < 10"
    using ok' by (auto simp: dict_ok_items intro!: bexI[of _ q])
  from scan_select[OF sc this] obtain pre b s post where
    r: "items vs' = pre @ (b, s) # post" "mb = Some b" "length s \<noteq> 1"
      "\<forall>p \<in> set pre. length (snd p) = 1 \<or> length s < length (snd p)"
      "\<forall>p \<in> set post. length (snd p) = 1 \<or> length s \<le> length (snd p)" by blast
  have split: "vs' = pre @ (b, s) # post" using r(1) ok' by (simp add: dict_ok_items)
  then have mem: "(b, s) \<in> set vs'" by simp
  then have g: "getitem vs' b = Inr s" using ok' by (simp add: getitem_def dict_ok_def)
  have "s \<noteq> []" using ne mem by auto
  with r(3) have l2: "2 \<le> length s" by (cases s; cases "tl s"; simp)
  have l9: "length s \<le> 9" using len' mem by auto
  have "vs' \<noteq> []" using split by simp
  then have tr: "truthy (Some vs')" by (simp add: truthy_def)
  have "search vs = try_choices vs' b s"
    using red tr sc r(2) k uns g by (subst search.simps) simp
  moreover have "scan (items vs') (10, None, 0) = (m, Some b, k)" using sc r(2) by simp
  moreover have "k \<noteq> 81" using k uns by simp
  ultimately show ?thesis using split g l2 l9 r(4,5)
    by (intro exI[of _ pre] exI[of _ b] exI[of _ s] exI[of _ post] exI[of _ m] exI[of _ k])
      simp
qed

text \<open>
  Claim C10. Let the dictionary hold the 81 cells, each with at most nine candidates. When
  \<open>reduce_puzzle\<close> returns a dictionary with fewer than 81 solved cells, some cell has
  between 2 and 9 candidates, the scan of \<open>search\<close> ends with \<^verbatim>\<open>min_box\<close> set to a box, and
  the lookup \<^verbatim>\<open>values[min_box]\<close> succeeds.
\<close>

theorem search_well_defined_branch:
  assumes "dict_ok vs" and "\<forall>p \<in> set vs. length (snd p) \<le> 9"
    and "reduce_puzzle vs = Inr (Some vs')" and "solved_count vs' < 81"
  shows "(\<exists>p \<in> set vs'. 2 \<le> length (snd p) \<and> length (snd p) \<le> 9)
       \<and> (\<exists>m b n choices. scan (items vs') (10, None, 0) = (m, Some b, n)
              \<and> getitem vs' b = Inr choices)"
proof -
  from search_branch[OF assms] obtain pre b choices post m n where
    r: "vs' = pre @ (b, choices) # post" "scan (items vs') (10, None, 0) = (m, Some b, n)"
      "getitem vs' b = Inr choices" "2 \<le> length choices" "length choices \<le> 9" by blast
  from r(1) have "(b, choices) \<in> set vs'" by simp
  with r(4,5) have "\<exists>p \<in> set vs'. 2 \<le> length (snd p) \<and> length (snd p) \<le> 9"
    by (intro bexI[of _ "(b, choices)"]) simp_all
  with r(2,3) show ?thesis by blast
qed

text \<open>
  Claim C7. Under the same hypotheses the dictionary that the reducer returned splits as
  \<open>pre @ (b, choices) # post\<close> around the cell \<open>b\<close> that \<open>search\<close> branches on: \<open>b\<close> is
  unsolved, every cell before it is solved or has strictly more candidates, every cell
  after it is solved or has at least as many, so \<open>b\<close> is the first cell in the order of the
  scan with the fewest candidates among the unsolved. What \<open>search\<close> returns is the first
  true result among the searches for \<open>choices\<close>, taken in their order in the string, each
  on the dictionary with \<open>b\<close> set to that digit.
\<close>

theorem search_branch_selection:
  assumes "dict_ok vs" and "\<forall>p \<in> set vs. length (snd p) \<le> 9"
    and "reduce_puzzle vs = Inr (Some vs')" and "solved_count vs' < 81"
  shows "\<exists>pre b choices post. vs' = pre @ (b, choices) # post
      \<and> length choices \<noteq> 1
      \<and> (\<forall>p \<in> set pre. length (snd p) = 1 \<or> length choices < length (snd p))
      \<and> (\<forall>p \<in> set post. length (snd p) = 1 \<or> length choices \<le> length (snd p))
      \<and> search vs = first_success (map (\<lambda>c. search (setitem vs' b [c])) choices)"
proof -
  from search_branch[OF assms] obtain pre b choices post where
    r: "vs' = pre @ (b, choices) # post" "2 \<le> length choices"
      "\<forall>p \<in> set pre. length (snd p) = 1 \<or> length choices < length (snd p)"
      "\<forall>p \<in> set post. length (snd p) = 1 \<or> length choices \<le> length (snd p)"
      "search vs = try_choices vs' b choices" by blast
  from r(2) have "length choices \<noteq> 1" by simp
  with r show ?thesis unfolding try_choices_first_success
    by (intro exI[of _ pre] exI[of _ b] exI[of _ choices] exI[of _ post]) simp
qed

lemma blank_lengths: "\<forall>p \<in> set (grid2values blank_grid). length (snd p) \<le> 9"
  using blank_values by simp

text \<open>
  The blank grid satisfies the hypotheses: the reducer returns it with no cell solved.
\<close>

theorem search_well_defined_branch_witness:
  "dict_ok (grid2values blank_grid)
   \<and> list_all (\<lambda>p. length (snd p) \<le> 9) (grid2values blank_grid)
   \<and> reduce_puzzle (grid2values blank_grid) = Inr (Some (grid2values blank_grid))
   \<and> solved_count (grid2values blank_grid) < 81
   \<and> (\<exists>p \<in> set (grid2values blank_grid). 2 \<le> length (snd p) \<and> length (snd p) \<le> 9)
   \<and> (\<exists>m b n choices. scan (items (grid2values blank_grid)) (10, None, 0) = (m, Some b, n)
          \<and> getitem (grid2values blank_grid) b = Inr choices)"
proof -
  have c: "solved_count (grid2values blank_grid) < 81" by (simp add: blank_counts)
  have l: "list_all (\<lambda>p. length (snd p) \<le> 9) (grid2values blank_grid)"
    using blank_lengths by (simp add: list_all_iff)
  from search_well_defined_branch[OF blank_dict_ok blank_lengths blank_reduce_puzzle c]
  show ?thesis using blank_dict_ok l blank_reduce_puzzle c by (intro conjI) simp_all
qed

text \<open>
  The blank grid again: the reducer returns it, no cell is solved.
\<close>

theorem search_branch_selection_witness:
  "dict_ok (grid2values blank_grid)
   \<and> list_all (\<lambda>p. length (snd p) \<le> 9) (grid2values blank_grid)
   \<and> reduce_puzzle (grid2values blank_grid) = Inr (Some (grid2values blank_grid))
   \<and> solved_count (grid2values blank_grid) < 81
   \<and> (\<exists>pre b choices post. grid2values blank_grid = pre @ (b, choices) # post
      \<and> length choices \<noteq> 1
      \<and> (\<forall>p \<in> set pre. length (snd p) = 1 \<or> length choices < length (snd p))
      \<and> (\<forall>p \<in> set post. length (snd p) = 1 \<or> length choices \<le> length (snd p))
      \<and> search (grid2values blank_grid) =
          first_success (map (\<lambda>c. search (setitem (grid2values blank_grid) b [c])) choices))"
proof -
  have c: "solved_count (grid2values blank_grid) < 81" by (simp add: blank_counts)
  have l: "list_all (\<lambda>p. length (snd p) \<le> 9) (grid2values blank_grid)"
    using blank_lengths by (simp add: list_all_iff)
  from search_branch_selection[OF blank_dict_ok blank_lengths blank_reduce_puzzle c]
  show ?thesis using blank_dict_ok l blank_reduce_puzzle c by (intro conjI) simp_all
qed


section \<open>\<open>eliminate\<close> twice\<close>

lemma subseq_notin: "subseq s' s \<Longrightarrow> c \<notin> set s \<Longrightarrow> c \<notin> set s'"
  by (auto elim: list_emb_set)

lemma remove_loop_removed:
  "for_each (remove_digit c) ps cur = Inr cur' \<Longrightarrow> p \<in> set ps \<Longrightarrow>
     map_of cur' p = Some s' \<Longrightarrow> c \<notin> set s'"
proof (induction ps arbitrary: cur)
  case Nil
  then show ?case by simp
next
  case (Cons q qs)
  from Cons.prems(1) obtain cur1 where c1: "remove_digit c q cur = Inr cur1"
    and r: "for_each (remove_digit c) qs cur1 = Inr cur'" by (auto split: sum.splits)
  show ?case
  proof (cases "p \<in> set qs")
    case True
    from Cons.IH[OF r True Cons.prems(3)] show ?thesis .
  next
    case False
    with Cons.prems(2) have pq: "p = q" by simp
    from c1 obtain s where "map_of cur1 q = Some (replace s c)"
      by (auto simp: remove_digit_def getitem_def setitem_def update_conv'
          split: option.splits)
    moreover have "narrower cur' cur1"
      using r by (rule for_each_narrower[rotated]) (rule remove_digit_narrower)
    ultimately obtain t where "map_of cur' q = Some t" "subseq t (replace s c)"
      using narrower_map_of by blast
    with Cons.prems(3) pq have "subseq s' (replace s c)" by simp
    moreover have "c \<notin> set (replace s c)" by (simp add: replace_def)
    ultimately show ?thesis by (rule subseq_notin)
  qed
qed

text \<open>A cell that is fixed when \<open>eliminate\<close> starts and still fixed when it ends has had
  its digit removed from all its peers.\<close>

lemma eliminate_loop_fixed:
  "for_each eliminate_box ks cur = Inr res \<Longrightarrow> k \<in> set ks \<Longrightarrow> map_of cur k = Some [c] \<Longrightarrow>
     map_of res k = Some [c] \<Longrightarrow> p \<in> set (peers k) \<Longrightarrow> map_of res p = Some s \<Longrightarrow>
     c \<notin> set s"
proof (induction ks arbitrary: cur)
  case Nil
  then show ?case by simp
next
  case (Cons k' ks)
  from Cons.prems(1) obtain cur1 where c1: "eliminate_box k' cur = Inr cur1"
    and r: "for_each eliminate_box ks cur1 = Inr res" by (auto split: sum.splits)
  have n1: "narrower cur1 cur" using c1 by (rule eliminate_box_narrower)
  have n2: "narrower res cur1"
    using r by (rule for_each_narrower[rotated]) (rule eliminate_box_narrower)
  show ?case
  proof (cases "k' = k")
    case True
    with c1 Cons.prems(3) have "for_each (remove_digit c) (peers k) cur = Inr cur1"
      by (simp add: eliminate_box_def getitem_def)
    moreover from narrower_map_of_rev[OF n2 Cons.prems(6)] obtain t where
      t: "map_of cur1 p = Some t" "subseq s t" by blast
    ultimately have "c \<notin> set t" using Cons.prems(5) by (intro remove_loop_removed)
    with t(2) show ?thesis by (rule subseq_notin)
  next
    case False
    with Cons.prems(2) have kin: "k \<in> set ks" by simp
    from narrower_map_of[OF n1 Cons.prems(3)] obtain t where
      t: "map_of cur1 k = Some t" "subseq t [c]" by blast
    from narrower_map_of[OF n2 t(1)] Cons.prems(4) have "subseq [c] t" by simp
    with t(2) have "t = [c]" by (auto dest: subseq_single)
    with t(1) have "map_of cur1 k = Some [c]" by simp
    from Cons.IH[OF r kin this Cons.prems(4,5,6)] show ?thesis .
  qed
qed

lemma remove_digit_absent:
  "map_of vs p = Some s \<Longrightarrow> c \<notin> set s \<Longrightarrow> remove_digit c p vs = Inr vs"
proof -
  assume a: "map_of vs p = Some s" "c \<notin> set s"
  then have "replace s c = s" by (auto simp: replace_def filter_id_conv)
  with a(1) show ?thesis by (simp add: remove_digit_def getitem_def setitem_def update_triv)
qed

lemma fixed_cells_iff:
  "dict_ok vs \<Longrightarrow> k \<in> set (fixed_cells vs) \<longleftrightarrow> (\<exists>s. map_of vs k = Some s \<and> length s = 1)"
proof -
  assume ok: "dict_ok vs"
  have "k \<in> set (fixed_cells vs) \<longleftrightarrow> (\<exists>s. (k, s) \<in> set vs \<and> length s = 1)"
    by (force simp: fixed_cells_def dict_ok_items[OF ok])
  also have "\<dots> \<longleftrightarrow> (\<exists>s. map_of vs k = Some s \<and> length s = 1)"
    using ok by (simp add: dict_ok_def)
  finally show ?thesis .
qed

text \<open>
  Claim C5, amended. On a dictionary of the 81 cells, when the cells that are fixed after
  \<open>eliminate\<close> were all fixed before it (the call fixed no new cell), a second call returns
  its input unchanged.
\<close>

theorem eliminate_idempotent_when_no_new_fixed:
  assumes ok: "dict_ok vs" and e: "eliminate vs = Inr v1"
    and nonew: "set (fixed_cells v1) \<subseteq> set (fixed_cells vs)"
  shows "eliminate v1 = Inr v1"
  unfolding eliminate_def
proof (rule for_each_id)
  fix k assume k: "k \<in> set (map fst v1)"
  have n: "narrower v1 vs" using e by (rule eliminate_narrower)
  have ok1: "dict_ok v1" using n ok by (rule narrower_dict_ok)
  from k obtain v where v: "map_of v1 k = Some v"
    by (cases "map_of v1 k") (auto simp: map_of_eq_None_iff)
  show "eliminate_box k v1 = Inr v1"
  proof (cases "length v = 1")
    case False
    with v show ?thesis by (rule eliminate_box_unsolved)
  next
    case True
    then obtain c where c: "v = [c]" by (cases v) auto
    from v True have "k \<in> set (fixed_cells v1)" using ok1 by (simp add: fixed_cells_iff)
    with nonew have "k \<in> set (fixed_cells vs)" by blast
    then obtain s0 where s0: "map_of vs k = Some s0" "length s0 = 1"
      using ok by (auto simp: fixed_cells_iff)
    from narrower_map_of[OF n s0(1)] v c have "c \<in> set s0" by (simp add: subseq_singleton_left)
    with s0(2) have "s0 = [c]" by (cases s0) auto
    with s0(1) have vk: "map_of vs k = Some [c]" by simp
    have kin: "k \<in> set (map fst vs)" using k narrower_keys[OF n] by simp
    have "for_each (remove_digit c) (peers k) v1 = Inr v1"
    proof (rule for_each_id)
      fix p assume p: "p \<in> set (peers k)"
      then have "p \<in> set boxes" by (rule peers_boxes)
      with ok1 obtain s where s: "map_of v1 p = Some s"
        using getitem_box[OF dict_ok_has_boxes] by blast
      have "c \<notin> set s"
        using eliminate_loop_fixed[OF e[unfolded eliminate_def] kin vk _ p s] v c by simp
      with s show "remove_digit c p v1 = Inr v1" by (rule remove_digit_absent)
    qed
    with v c show ?thesis by (simp add: eliminate_box_def getitem_def)
  qed
qed

lemma half_fixed_dict_ok: "dict_ok half_fixed"
  using boxes_ok by (simp add: dict_ok_def half_fixed_def comp_def)

lemma half_fixed_first_pass:
  "(case eliminate half_fixed of
      Inl e \<Rightarrow> False
    | Inr v1 \<Rightarrow> getitem v1 ''A1'' = Inr ''2'' \<and> getitem v1 ''A3'' = Inr ''23'')"
  by code_simp

text \<open>
  Claim C5 as stated fails: on \<open>half_fixed\<close> the second call of \<open>eliminate\<close> returns a
  dictionary other than the one the first call returned.
\<close>

theorem eliminate_not_idempotent:
  "dict_ok half_fixed
   \<and> (\<exists>v1 v2. eliminate half_fixed = Inr v1 \<and> eliminate v1 = Inr v2 \<and> v2 \<noteq> v1)"
proof -
  from eliminate_total[OF dict_ok_has_boxes[OF half_fixed_dict_ok]] obtain v1 where
    v1: "eliminate half_fixed = Inr v1" "narrower v1 half_fixed" by blast
  have hb1: "has_boxes v1"
    using v1(2) dict_ok_has_boxes[OF half_fixed_dict_ok] by (rule narrower_has_boxes)
  from eliminate_total[OF hb1] obtain v2 where v2: "eliminate v1 = Inr v2" by blast
  from half_fixed_first_pass v1(1) have
    a1: "map_of v1 ''A1'' = Some ''2''" and a3: "map_of v1 ''A3'' = Some ''23''"
    by (auto simp: getitem_def split: option.splits)
  have p: "''A3'' \<in> set (peers ''A1'')" by code_simp
  have k: "''A1'' \<in> set (map fst v1)" using a1 by (force dest: map_of_SomeD)
  have "v2 \<noteq> v1"
  proof
    assume "v2 = v1"
    with v2 have e: "for_each eliminate_box (map fst v1) v1 = Inr v1" by (simp add: eliminate_def)
    from eliminate_loop_fixed[OF e k a1 a1 p a3] show False by simp
  qed
  with v1(1) v2 half_fixed_dict_ok show ?thesis by blast
qed

lemma one_fixed_dict_ok: "dict_ok one_fixed"
  using boxes_ok by (simp add: dict_ok_def one_fixed_def comp_def)

lemma one_fixed_pass:
  "(case eliminate one_fixed of
      Inl e \<Rightarrow> False
    | Inr v1 \<Rightarrow> getitem v1 ''A2'' = Inr ''23''
        \<and> set (map fst (filter (\<lambda>(box, v). length v = 1) v1))
            \<subseteq> set (map fst (filter (\<lambda>(box, v). length v = 1) one_fixed)))"
  by code_simp

text \<open>
  \<^verbatim>\<open>A1\<close> fixed to 1 and every other cell with the candidates 1, 2 and 3: the first call
  changes the dictionary and fixes no new cell.
\<close>

theorem eliminate_idempotent_when_no_new_fixed_witness:
  "dict_ok one_fixed
   \<and> (\<exists>v1. eliminate one_fixed = Inr v1 \<and> v1 \<noteq> one_fixed
          \<and> set (fixed_cells v1) \<subseteq> set (fixed_cells one_fixed)
          \<and> eliminate v1 = Inr v1)"
proof -
  from eliminate_total[OF dict_ok_has_boxes[OF one_fixed_dict_ok]] obtain v1 where
    v1: "eliminate one_fixed = Inr v1" "narrower v1 one_fixed" by blast
  have ok1: "dict_ok v1" using v1(2) one_fixed_dict_ok by (rule narrower_dict_ok)
  from one_fixed_pass v1(1) have a2: "getitem v1 ''A2'' = Inr ''23''"
    and sub: "set (fixed_cells v1) \<subseteq> set (fixed_cells one_fixed)"
    by (simp_all add: fixed_cells_def dict_ok_items[OF ok1] dict_ok_items[OF one_fixed_dict_ok])
  have "getitem one_fixed ''A2'' = Inr ''123''" by code_simp
  with a2 have ne: "v1 \<noteq> one_fixed" by auto
  from eliminate_idempotent_when_no_new_fixed[OF one_fixed_dict_ok v1(1) sub]
  show ?thesis using one_fixed_dict_ok v1(1) ne sub by blast
qed


section \<open>Naked twins: what the processing of a pair does\<close>

lemma remove_digits_cell:
  "map_of vs cell = Some x \<Longrightarrow>
     for_each (\<lambda>digit. remove_digit digit cell) ds vs
       = Inr (AList.update cell (filter (\<lambda>d. d \<notin> set ds) x) vs)"
proof (induction ds arbitrary: vs x)
  case Nil
  then show ?case by (simp add: update_triv)
next
  case (Cons d ds)
  have m: "map_of (AList.update cell (replace x d) vs) cell = Some (replace x d)"
    by (simp add: update_conv')
  have f: "filter (\<lambda>e. e \<notin> set ds) (replace x d) = filter (\<lambda>e. e \<notin> set (d # ds)) x"
    by (auto simp: replace_def intro: filter_cong)
  show ?case using Cons.prems Cons.IH[OF m] f
    by (simp add: remove_digit_def getitem_def setitem_def)
qed

lemma remove_digits_cells:
  "set cells \<subseteq> fst ` set vs \<Longrightarrow>
     \<exists>vs'. for_each (\<lambda>cell. for_each (\<lambda>digit. remove_digit digit cell) ds) cells vs = Inr vs'
        \<and> map fst vs' = map fst vs
        \<and> (\<forall>c. map_of vs' c =
              (if c \<in> set cells then map_option (filter (\<lambda>d. d \<notin> set ds)) (map_of vs c)
               else map_of vs c))"
proof (induction cells arbitrary: vs)
  case Nil
  then show ?case by simp
next
  case (Cons cell cells)
  from Cons.prems obtain x where x: "map_of vs cell = Some x"
    by (cases "map_of vs cell") (auto simp: map_of_eq_None_iff)
  let ?v1 = "AList.update cell (filter (\<lambda>d. d \<notin> set ds) x) vs"
  have s1: "for_each (\<lambda>digit. remove_digit digit cell) ds vs = Inr ?v1"
    using x by (rule remove_digits_cell)
  have k1: "map fst ?v1 = map fst vs"
    using x by (auto simp: update_keys dest: map_of_SomeD intro: rev_image_eqI)
  then have "set cells \<subseteq> fst ` set ?v1" using Cons.prems by (simp flip: set_map)
  from Cons.IH[OF this] obtain vs' where
    r: "for_each (\<lambda>cell. for_each (\<lambda>digit. remove_digit digit cell) ds) cells ?v1 = Inr vs'"
      "map fst vs' = map fst ?v1"
      "\<forall>c. map_of vs' c =
          (if c \<in> set cells then map_option (filter (\<lambda>d. d \<notin> set ds)) (map_of ?v1 c)
           else map_of ?v1 c)" by blast
  have "\<forall>c. map_of vs' c =
      (if c \<in> set (cell # cells) then map_option (filter (\<lambda>d. d \<notin> set ds)) (map_of vs c)
       else map_of vs c)"
    using r(3) x by (auto simp: update_conv')
  with s1 r(1,2) k1 show ?case by simp
qed

text \<open>
  Claim C6, amended. \<open>twins_in_unit\<close> calls \<open>twin_found u (a, s) (b, s)\<close> for every pair of
  boxes \<open>a\<close>, \<open>b\<close> of the unit \<open>u\<close> that it found with the same two candidates \<open>s\<close>. On a
  dictionary of the 81 cells that call returns, and in its result every cell of \<open>u\<close> other
  than \<open>a\<close> and \<open>b\<close> has lost the digits of \<open>s\<close> and nothing else, while \<open>a\<close>, \<open>b\<close> and all
  cells outside \<open>u\<close> are as they were: the processing of a pair never touches the pair
  itself. (Another pair, of the same or of another unit, may.)
\<close>

theorem twin_found_effect:
  assumes ok: "dict_ok vs" and u: "u \<in> set unitlist"
  shows "\<exists>vs'. twin_found u (a, s) (b, s) vs = Inr vs'
     \<and> map fst vs' = map fst vs
     \<and> (\<forall>c x. getitem vs c = Inr x \<longrightarrow>
            getitem vs' c =
              Inr (if c \<in> set u \<and> c \<noteq> a \<and> c \<noteq> b then filter (\<lambda>d. d \<notin> set s) x else x))"
proof -
  have "set (filter (\<lambda>cell. cell \<noteq> a \<and> cell \<noteq> b) u) \<subseteq> fst ` set vs"
    using unit_boxes[OF u] ok by (auto simp: dict_ok_def simp flip: set_map)
  from remove_digits_cells[OF this, of s] obtain vs' where
    r: "twin_found u (a, s) (b, s) vs = Inr vs'" "map fst vs' = map fst vs"
      "\<forall>c. map_of vs' c =
          (if c \<in> set (filter (\<lambda>cell. cell \<noteq> a \<and> cell \<noteq> b) u)
           then map_option (filter (\<lambda>d. d \<notin> set s)) (map_of vs c)
           else map_of vs c)"
    by (auto simp: twin_found_def)
  have "getitem vs' c =
      Inr (if c \<in> set u \<and> c \<noteq> a \<and> c \<noteq> b then filter (\<lambda>d. d \<notin> set s) x else x)"
    if "getitem vs c = Inr x" for c x
    using that r(3) by (auto simp: getitem_def split: option.splits)
  with r(1,2) show ?thesis by blast
qed

lemma for_each_append:
  "for_each body (xs @ ys) s =
     (case for_each body xs s of Inl e \<Rightarrow> Inl e | Inr s' \<Rightarrow> for_each body ys s')"
  by (induction xs arbitrary: s) (auto split: sum.splits)

lemma twin_board_dict_ok: "dict_ok twin_board"
  using boxes_ok by (simp add: dict_ok_def twin_board_def comp_def)

lemma twin_board_detected:
  "possible_twins twin_board (unitlist ! 0) = Inr [(''A1'', ''12''), (''A5'', ''12'')]"
  by code_simp

lemma twin_board_ten_units:
  "(case for_each twins_in_unit (take 10 unitlist) twin_board of
      Inl e \<Rightarrow> False
    | Inr m \<Rightarrow> getitem m ''A1'' = Inr ''2'')"
  by code_simp

text \<open>
  Claim C6 as stated fails on \<open>twin_board\<close>: \<^verbatim>\<open>A1\<close> and \<^verbatim>\<open>A5\<close> are the twins that
  \<open>naked_twins\<close> finds in the first unit, the first row, and yet \<open>naked_twins\<close> removes a
  digit from \<^verbatim>\<open>A1\<close>: the twins \<^verbatim>\<open>D1\<close>, \<^verbatim>\<open>E1\<close> of the first column take the 1 from it.
\<close>

theorem naked_twins_changes_twin:
  "dict_ok twin_board
   \<and> possible_twins twin_board (unitlist ! 0) = Inr [(''A1'', ''12''), (''A5'', ''12'')]
   \<and> getitem twin_board ''A1'' = Inr ''12''
   \<and> (\<exists>r. naked_twins twin_board = Inr r \<and> getitem r ''A1'' \<noteq> Inr ''12'')"
proof -
  from naked_twins_total[OF dict_ok_has_boxes[OF twin_board_dict_ok]] obtain r where
    r: "naked_twins twin_board = Inr r" by blast
  have "unitlist = take 10 unitlist @ drop 10 unitlist" by simp
  then have "naked_twins twin_board =
      (case for_each twins_in_unit (take 10 unitlist) twin_board of
         Inl e \<Rightarrow> Inl e | Inr m \<Rightarrow> for_each twins_in_unit (drop 10 unitlist) m)"
    unfolding naked_twins_def using for_each_append[of twins_in_unit "take 10 unitlist"
        "drop 10 unitlist" twin_board] by simp
  with r twin_board_ten_units obtain m where
    m: "getitem m ''A1'' = Inr ''2''" "for_each twins_in_unit (drop 10 unitlist) m = Inr r"
    by (auto split: sum.splits)
  have "narrower r m"
    using m(2) by (rule for_each_narrower[rotated]) (rule twins_in_unit_narrower)
  moreover from m(1) have "map_of m ''A1'' = Some ''2''"
    by (auto simp: getitem_def split: option.splits)
  ultimately obtain t where t: "map_of r ''A1'' = Some t" "subseq t ''2''"
    using narrower_map_of by blast
  from t(2) have "t \<noteq> ''12''" by (auto dest: list_emb_length)
  with t(1) have "getitem r ''A1'' \<noteq> Inr ''12''" by (simp add: getitem_def)
  moreover have "getitem twin_board ''A1'' = Inr ''12''" by code_simp
  ultimately show ?thesis using r twin_board_dict_ok twin_board_detected by blast
qed

text \<open>
  The pair \<^verbatim>\<open>A1\<close>, \<^verbatim>\<open>A5\<close> of the first row of \<open>twin_board\<close>: both keep their candidates,
  \<^verbatim>\<open>A2\<close> loses 1 and 2.
\<close>

theorem twin_found_effect_witness:
  "dict_ok twin_board \<and> unitlist ! 0 \<in> set unitlist
   \<and> (\<exists>vs'. twin_found (unitlist ! 0) (''A1'', ''12'') (''A5'', ''12'') twin_board = Inr vs'
          \<and> map fst vs' = map fst twin_board
          \<and> getitem vs' ''A1'' = Inr ''12'' \<and> getitem vs' ''A5'' = Inr ''12''
          \<and> getitem vs' ''A2'' = Inr ''3456789'')"
proof -
  have u: "unitlist ! 0 \<in> set unitlist" by code_simp
  have g: "getitem twin_board ''A1'' = Inr ''12''" "getitem twin_board ''A5'' = Inr ''12''"
    "getitem twin_board ''A2'' = Inr ''123456789''"
    by code_simp+
  have i: "''A2'' \<in> set (unitlist ! 0)" by code_simp
  from twin_found_effect[OF twin_board_dict_ok u, of "''A1''" "''12''" "''A5''"]
  obtain vs' where
    r: "twin_found (unitlist ! 0) (''A1'', ''12'') (''A5'', ''12'') twin_board = Inr vs'"
      "map fst vs' = map fst twin_board"
      "\<forall>c x. getitem twin_board c = Inr x \<longrightarrow>
            getitem vs' c =
              Inr (if c \<in> set (unitlist ! 0) \<and> c \<noteq> ''A1'' \<and> c \<noteq> ''A5''
                   then filter (\<lambda>d. d \<notin> set ''12'') x else x)" by blast
  from r(3) g(1) have "getitem vs' ''A1'' = Inr ''12''" by simp
  moreover from r(3) g(2) have "getitem vs' ''A5'' = Inr ''12''" by simp
  moreover from r(3)[rule_format, OF g(3)] i have "getitem vs' ''A2'' = Inr ''3456789''" by simp
  ultimately show ?thesis using r(1,2) twin_board_dict_ok u by blast
qed


section \<open>Solved dictionaries, and the soundness of the search\<close>

lemma narrower_cand_ok:
  assumes "narrower vs' vs" "cand_ok vs"
  shows "cand_ok vs'"
  using assms unfolding narrower_def cand_ok_def
proof (induction rule: list_all2_induct)
  case Nil
  then show ?case by simp
next
  case (Cons p' ps' p ps)
  then have "subseq (snd p') ''123456789''" by (auto intro: subseq_order.trans)
  with Cons show ?case by simp
qed

lemma cand_ok_length: "cand_ok vs \<Longrightarrow> \<forall>p \<in> set vs. length (snd p) \<le> 9"
  unfolding cand_ok_def by (auto dest!: bspec list_emb_length)

lemma grid2values_cand_ok: "cand_ok (grid2values grid)"
proof -
  have "subseq [c] ''123456789''" if "c \<in> set ''123456789''" for c
    using that by (simp only: subseq_singleton_left)
  then show ?thesis
    unfolding cand_ok_def grid2values_def by (auto simp del: set_simps list_emb_Cons_iff2 subseq_Cons2_iff)
qed

lemma filter_two:
  assumes "x \<in> set xs" "y \<in> set xs" "x \<noteq> y" "P x" "P y"
  shows "2 \<le> length (filter P xs)"
proof -
  have "{x, y} \<subseteq> set (filter P xs)" using assms by simp
  then have "card {x, y} \<le> card (set (filter P xs))" by (intro card_mono) simp_all
  also have "\<dots> \<le> length (filter P xs)" by (rule card_length)
  finally show ?thesis using assms(3) by simp
qed

lemma filter_one:
  "distinct (map f xs) \<Longrightarrow> d \<in> f ` set xs \<Longrightarrow> length (filter (\<lambda>b. f b = d) xs) = 1"
proof (induction xs)
  case Nil
  then show ?case by simp
next
  case (Cons x xs)
  show ?case
  proof (cases "f x = d")
    case True
    from Cons.prems(1) have "f x \<notin> f ` set xs" by simp
    with True have "\<forall>b \<in> set xs. f b \<noteq> d" by blast
    then have "filter (\<lambda>b. f b = d) xs = []" by (simp add: filter_empty_conv)
    with True show ?thesis by simp
  next
    case False
    with Cons show ?thesis by auto
  qed
qed

lemma pigeonhole_unit:
  assumes "distinct (map f u)" "length u = 9" "f ` set u \<subseteq> D" "card D = 9" "d \<in> D"
  shows "length (filter (\<lambda>b. f b = d) u) = 1"
proof -
  have fin: "finite D" using assms(4) by (intro card_ge_0_finite) simp
  have "card (f ` set u) = 9"
    using distinct_card[OF assms(1)] assms(2) by simp
  with assms(3,4) fin have "f ` set u = D" by (intro card_subset_eq) simp_all
  with assms(5) have "d \<in> f ` set u" by simp
  with assms(1) show ?thesis by (rule filter_one)
qed

lemma filter_all_length: "length (filter P xs) = length xs \<Longrightarrow> \<forall>x \<in> set xs. P x"
proof (induction xs)
  case Nil
  then show ?case by simp
next
  case (Cons x xs)
  have le: "length (filter P xs) \<le> length xs" by (rule length_filter_le)
  show ?case
  proof (cases "P x")
    case True
    with Cons.prems have "length (filter P xs) = length xs" by simp
    from Cons.IH[OF this] True show ?thesis by simp
  next
    case False
    with Cons.prems le show ?thesis by simp
  qed
qed

lemma all_solved:
  assumes "dict_ok vs" "solved_count vs = 81"
  shows "\<forall>p \<in> set vs. length (snd p) = 1"
proof -
  have "length (filter (\<lambda>(box, v). length v = 1) vs) = length vs"
    using assms dict_ok_length[OF assms(1)] by (simp add: solved_count_def dict_ok_items)
  from filter_all_length[OF this] show ?thesis by auto
qed

lemma all_solved_total: "\<forall>p \<in> set vs. length (snd p) = 1 \<Longrightarrow> total_len vs = length vs"
  by (induction vs) (auto simp: total_len_def)

text \<open>A dictionary that the reducer returns with all 81 cells solved is left as it is by
  \<open>eliminate\<close>.\<close>

lemma reduce_solved_fixpoint:
  assumes ok: "dict_ok vs" and red: "reduce_puzzle vs = Inr (Some r)"
    and full: "solved_count r = 81"
  shows "eliminate r = Inr r"
proof -
  from reduce_puzzle_final[OF red] obtain v where
    v: "reduce_visits vs v" "reduce_pass v = Inr r" "solved_count v = solved_count r" by blast
  have okv: "dict_ok v" using reduce_visits_narrower[OF v(1)] ok by (rule narrower_dict_ok)
  have n: "narrower r v" using v(2) by (rule reduce_pass_narrower)
  have okr: "dict_ok r" using n okv by (rule narrower_dict_ok)
  have "total_len r = length r" using all_solved[OF okr full] by (rule all_solved_total)
  moreover have "total_len v = length v"
    using all_solved[OF okv] v(3) full by (intro all_solved_total) simp
  ultimately have "total_len r = total_len v" using narrower_length[OF n] by simp
  with n have "r = v" by (rule narrower_total_eq)
  with v(2) have "reduce_pass r = Inr r" by simp
  then obtain e where e: "eliminate r = Inr e" "only_choice e = Inr r"
    by (auto simp: reduce_pass_strategies split: sum.splits)
  have "narrower e r" using e(1) by (rule eliminate_narrower)
  moreover have "narrower r e" using e(2) by (rule only_choice_narrower)
  ultimately have "e = r" by (rule narrower_antisym)
  with e(1) show ?thesis by simp
qed

lemma eliminate_fixpoint_peers:
  assumes e: "eliminate r = Inr r" and k: "map_of r k = Some [c]"
    and p: "p \<in> set (peers k)" and s: "map_of r p = Some s"
  shows "c \<notin> set s"
proof -
  have kin: "k \<in> set (map fst r)" using k by (force dest: map_of_SomeD)
  from eliminate_loop_fixed[OF e[unfolded eliminate_def] kin k k p s] show ?thesis .
qed

lemma fixpoint_units_complete:
  assumes ok: "dict_ok r" and c: "cand_ok r" and all1: "\<forall>p \<in> set r. length (snd p) = 1"
    and e: "eliminate r = Inr r" and u: "u \<in> set unitlist"
  shows "unit_complete r u"
proof -
  have val: "\<exists>d \<in> set ''123456789''. map_of r b = Some [d]" if "b \<in> set boxes" for b
  proof -
    from getitem_box[OF dict_ok_has_boxes[OF ok] that] obtain s where s: "map_of r b = Some s"
      by blast
    then have mem: "(b, s) \<in> set r" by (rule map_of_SomeD)
    with all1 have "length s = 1" by auto
    then obtain d where d: "s = [d]" by (cases s) auto
    from c mem have "subseq s ''123456789''" by (auto simp: cand_ok_def)
    with d have "d \<in> set ''123456789''" by (simp only: subseq_singleton_left)
    with s d show ?thesis by blast
  qed
  have inj: "getitem r a \<noteq> getitem r b" if "a \<in> set u" "b \<in> set u" "a \<noteq> b" for a b
  proof -
    from val[OF unit_boxes[OF u that(1)]] obtain da where da: "map_of r a = Some [da]" by blast
    from val[OF unit_boxes[OF u that(2)]] obtain db where db: "map_of r b = Some [db]" by blast
    have "b \<in> set (peers a)" using that u by (auto simp: peers_iff)
    from eliminate_fixpoint_peers[OF e da this db] have "da \<noteq> db" by simp
    with da db show ?thesis by (simp add: getitem_def)
  qed
  have dist: "distinct (map (getitem r) u)"
    using unit_distinct[OF u] inj by (auto simp: distinct_map inj_on_def)
  let ?D = "(\<lambda>d. Inr [d] :: error + string) ` set ''123456789''"
  have sub: "getitem r ` set u \<subseteq> ?D"
  proof
    fix x assume "x \<in> getitem r ` set u"
    then obtain b where b: "b \<in> set u" "x = getitem r b" by blast
    from val[OF unit_boxes[OF u b(1)]] obtain d where
      d: "d \<in> set ''123456789''" "map_of r b = Some [d]" by blast
    from d(2) b(2) have "x = Inr [d]" by (simp add: getitem_def)
    then show "x \<in> ?D" using d(1) by (rule image_eqI)
  qed
  have "inj (\<lambda>d. Inr [d] :: error + string)" by (simp add: inj_def)
  then have "inj_on (\<lambda>d. Inr [d] :: error + string) (set ''123456789'')"
    by (rule inj_on_subset) simp
  then have "card ?D = card (set ''123456789'')" by (rule card_image)
  also have "\<dots> = length ''123456789''" by (rule distinct_card) simp
  also have "\<dots> = 9" by simp
  finally have card: "card ?D = 9" .
  show ?thesis
    unfolding unit_complete_def
  proof
    fix d assume "d \<in> set ''123456789''"
    then have "Inr [d] \<in> ?D" by (rule imageI)
    from pigeonhole_unit[OF dist unit_length[OF u] sub card this]
    show "length (filter (\<lambda>b. getitem r b = Inr [d]) u) = 1" .
  qed
qed

text \<open>What \<open>search\<close> returns for a dictionary that the reducer returned solved.\<close>

lemma search_solved:
  assumes ok: "dict_ok vs" and red: "reduce_puzzle vs = Inr (Some r)"
    and full: "solved_count r = 81"
  shows "search vs = Inr (Some r)"
proof -
  have okr: "dict_ok r" using reduce_puzzle_narrower[OF red] ok by (rule narrower_dict_ok)
  then have "r \<noteq> []" using dict_ok_length[of r] by auto
  then have tr: "truthy (Some r)" by (simp add: truthy_def)
  obtain m mb k where sc: "scan (items r) (10, None, 0) = (m, mb, k)"
    by (cases "scan (items r) (10, None, 0)") auto
  have "k = solved_count r" using scan_solved[OF sc] by (simp add: solved_count_def)
  with full red tr sc show ?thesis by (subst search.simps) simp
qed

lemma search_failed: "reduce_puzzle vs = Inr None \<Longrightarrow> search vs = Inr None"
  by (subst search.simps) (simp add: truthy_def)

lemma reduce_solved:
  assumes ok: "dict_ok vs" and c: "cand_ok vs" and red: "reduce_puzzle vs = Inr (Some r)"
    and full: "solved_count r = 81"
  shows "solved r"
proof -
  have n: "narrower r vs" using red by (rule reduce_puzzle_narrower)
  have okr: "dict_ok r" using n ok by (rule narrower_dict_ok)
  have cr: "cand_ok r" using n c by (rule narrower_cand_ok)
  have all1: "\<forall>p \<in> set r. length (snd p) = 1" using okr full by (rule all_solved)
  have e: "eliminate r = Inr r" using ok red full by (rule reduce_solved_fixpoint)
  have "\<exists>d \<in> set ''123456789''. snd p = [d]" if "p \<in> set r" for p
  proof -
    from all1 that obtain d where d: "snd p = [d]" by (cases "snd p") auto
    from cr that have "subseq (snd p) ''123456789''" unfolding cand_ok_def by blast
    with d have "d \<in> set ''123456789''" by (simp only: subseq_singleton_left)
    with d show ?thesis by blast
  qed
  moreover have "unit_complete r u" if "u \<in> set unitlist" for u
    using okr cr all1 e that by (rule fixpoint_units_complete)
  ultimately show ?thesis unfolding solved_def by blast
qed

lemma try_choices_sound:
  assumes "\<And>c. c \<in> set cs \<Longrightarrow> sound_for vs (search (setitem vs b [c]))"
  shows "sound_for vs (try_choices vs b cs)"
  using assms
proof (induction cs)
  case Nil
  then show ?case by (simp add: sound_for_def)
next
  case (Cons c cs)
  have s: "sound_for vs (search (setitem vs b [c]))" using Cons.prems by simp
  have r: "sound_for vs (try_choices vs b cs)" using Cons by simp
  show ?case
  proof (cases "search (setitem vs b [c])")
    case (Inl e)
    with s show ?thesis by (simp add: sound_for_def)
  next
    case (Inr sol)
    show ?thesis
    proof (cases "truthy sol")
      case True
      with Inr s show ?thesis by simp
    next
      case False
      with Inr r show ?thesis by simp
    qed
  qed
qed

lemma sound_for_narrower: "sound_for vs' res \<Longrightarrow> narrower vs' vs \<Longrightarrow> sound_for vs res"
  unfolding sound_for_def by (auto intro: narrower_trans)

lemma search_sound:
  assumes "dict_ok vs" "cand_ok vs"
  shows "sound_for vs (search vs)"
  using assms
proof (induction "total_len vs" arbitrary: vs rule: less_induct)
  case less
  from reduce_puzzle_total[OF dict_ok_has_boxes[OF less.prems(1)]] obtain res where
    res: "reduce_puzzle vs = Inr res" by blast
  show ?case
  proof (cases res)
    case None
    with res show ?thesis by (simp add: search_failed sound_for_def)
  next
    case (Some r)
    with res have red: "reduce_puzzle vs = Inr (Some r)" by simp
    have n: "narrower r vs" using red by (rule reduce_puzzle_narrower)
    have okr: "dict_ok r" using n less.prems(1) by (rule narrower_dict_ok)
    have cr: "cand_ok r" using n less.prems(2) by (rule narrower_cand_ok)
    show ?thesis
    proof (cases "solved_count r = 81")
      case True
      have "search vs = Inr (Some r)" using less.prems(1) red True by (rule search_solved)
      moreover have "solved r" using less.prems red True by (rule reduce_solved)
      ultimately show ?thesis using n by (simp add: sound_for_def)
    next
      case False
      with solved_count_le[OF okr] have lt: "solved_count r < 81" by simp
      from search_branch[OF less.prems(1) cand_ok_length[OF less.prems(2)] red lt]
      obtain pre b choices post where
        sp: "r = pre @ (b, choices) # post" and g: "getitem r b = Inr choices"
        and l2: "2 \<le> length choices" and se: "search vs = try_choices r b choices" by blast
      have m: "map_of r b = Some choices" using g by (auto simp: getitem_def split: option.splits)
      have "sound_for r (search (setitem r b [c]))" if c: "c \<in> set choices" for c
      proof -
        have sub: "subseq [c] choices" using c by (simp only: subseq_singleton_left)
        have n1: "narrower (setitem r b [c]) r"
          unfolding setitem_def using m sub by (rule narrower_update)
        have "total_len (setitem r b [c]) + length choices = total_len r + 1"
          using total_len_update_Some[OF m, of "[c]"] by (simp add: setitem_def)
        with l2 have "total_len (setitem r b [c]) < total_len r" by simp
        also have "\<dots> \<le> total_len vs" using n by (rule narrower_total_le)
        finally have lt: "total_len (setitem r b [c]) < total_len vs" .
        have "sound_for (setitem r b [c]) (search (setitem r b [c]))"
          using lt narrower_dict_ok[OF n1 okr] narrower_cand_ok[OF n1 cr] by (rule less.hyps)
        then show ?thesis using n1 by (rule sound_for_narrower)
      qed
      then have "sound_for r (try_choices r b choices)" by (rule try_choices_sound)
      then show ?thesis unfolding se using n by (rule sound_for_narrower)
    qed
  qed
qed

lemma grid2values_given:
  assumes "length grid = 81" "set grid \<subseteq> set ''123456789''" "p \<in> set (grid2values grid)"
  shows "\<exists>d \<in> set ''123456789''. snd p = [d]"
proof -
  from assms(3) obtain b c where bc: "(b, c) \<in> set (zip boxes grid)"
    and p: "p = (b, if c \<in> set ''123456789'' then [c] else ''123456789'')"
    unfolding grid2values_def by auto
  from bc have "c \<in> set grid" by (rule set_zip_rightD)
  with assms(2) have "c \<in> set ''123456789''" by blast
  with p show ?thesis by (intro bexI[of _ c]) simp_all
qed

lemma solved_cell: "solved vs \<Longrightarrow> p \<in> set vs \<Longrightarrow> \<exists>d \<in> set ''123456789''. snd p = [d]"
  unfolding solved_def by (rule bspec, erule conjunct1)

lemma solved_unit:
  "solved vs \<Longrightarrow> u \<in> set unitlist \<Longrightarrow> d \<in> set ''123456789'' \<Longrightarrow>
     length (filter (\<lambda>b. getitem vs b = Inr [d]) u) = 1"
  unfolding solved_def unit_complete_def by (elim conjE) (rule bspec, erule bspec)

text \<open>The reducer and the search on a dictionary that is solved already.\<close>

lemma solved_reduce_pass:
  assumes ok: "dict_ok vs" and sol: "solved vs"
  shows "reduce_pass vs = Inr vs"
proof -
  have val: "\<exists>d \<in> set ''123456789''. map_of vs b = Some [d]" if "b \<in> set boxes" for b
  proof -
    from getitem_box[OF dict_ok_has_boxes[OF ok] that] obtain s where s: "map_of vs b = Some s"
      by blast
    then have "(b, s) \<in> set vs" by (rule map_of_SomeD)
    with solved_cell[OF sol] obtain d where "d \<in> set ''123456789''" "snd (b, s) = [d]"
      by blast
    with s show ?thesis by (intro bexI[of _ d]) simp_all
  qed
  have e: "eliminate vs = Inr vs"
    unfolding eliminate_def
  proof (rule for_each_id)
    fix k assume "k \<in> set (map fst vs)"
    then have kb: "k \<in> set boxes" using ok by (simp add: dict_ok_def)
    from val[OF kb] obtain d where d: "d \<in> set ''123456789''" "map_of vs k = Some [d]" by blast
    have "for_each (remove_digit d) (peers k) vs = Inr vs"
    proof (rule for_each_id)
      fix p assume p: "p \<in> set (peers k)"
      then obtain u where u: "u \<in> set unitlist" "k \<in> set u" "p \<in> set u" "p \<noteq> k"
        by (auto simp: peers_iff)
      from val[OF peers_boxes[OF p]] obtain d' where d': "map_of vs p = Some [d']" by blast
      have "d' \<noteq> d"
      proof
        assume "d' = d"
        with d' d(2) have "getitem vs p = Inr [d]" "getitem vs k = Inr [d]"
          by (simp_all add: getitem_def)
        from filter_two[of p u k "\<lambda>b. getitem vs b = Inr [d]", OF u(3) u(2) u(4) this]
        have "2 \<le> length (filter (\<lambda>b. getitem vs b = Inr [d]) u)" .
        moreover have "length (filter (\<lambda>b. getitem vs b = Inr [d]) u) = 1"
          using sol u(1) d(1) by (rule solved_unit)
        ultimately show False by simp
      qed
      then have "d \<notin> set [d']" by simp
      with d' show "remove_digit d p vs = Inr vs" by (rule remove_digit_absent)
    qed
    with d(2) show "eliminate_box k vs = Inr vs" by (simp add: eliminate_box_def getitem_def)
  qed
  have "only_choice vs = Inr vs"
    unfolding only_choice_def
  proof (rule for_each_id, rule for_each_id)
    fix u d assume u: "u \<in> set unitlist" and d: "d \<in> set ''123456789''"
    have "\<forall>b \<in> set u. map_of vs b \<noteq> None" using val unit_boxes[OF u] by fastforce
    then have pc: "places_counter vs d u
        = Inr (filter (\<lambda>b. \<exists>s. map_of vs b = Some s \<and> d \<in> set s) u)"
      by (rule places_counter_filter)
    have "filter (\<lambda>b. \<exists>s. map_of vs b = Some s \<and> d \<in> set s) u
        = filter (\<lambda>b. getitem vs b = Inr [d]) u"
    proof (rule filter_cong[OF refl])
      fix b assume "b \<in> set u"
      from val[OF unit_boxes[OF u this]] obtain c where "map_of vs b = Some [c]" by blast
      then show "(\<exists>s. map_of vs b = Some s \<and> d \<in> set s) = (getitem vs b = Inr [d])"
        by (auto simp: getitem_def)
    qed
    moreover have "length (filter (\<lambda>b. getitem vs b = Inr [d]) u) = 1"
      using sol u d by (rule solved_unit)
    ultimately obtain b0 where b0: "filter (\<lambda>b. \<exists>s. map_of vs b = Some s \<and> d \<in> set s) u = [b0]"
      "filter (\<lambda>b. getitem vs b = Inr [d]) u = [b0]"
      by (cases "filter (\<lambda>b. getitem vs b = Inr [d]) u") auto
    have "b0 \<in> set (filter (\<lambda>b. getitem vs b = Inr [d]) u)" using b0(2) by simp
    then have "map_of vs b0 = Some [d]" by (auto simp: getitem_def split: option.splits)
    then have "setitem vs b0 [d] = vs" unfolding setitem_def by (rule update_triv)
    with pc b0(1) show "only_choice_digit u d vs = Inr vs" by (simp add: only_choice_digit_def)
  qed
  with e show ?thesis by (simp add: reduce_pass_strategies)
qed

lemma solved_search:
  assumes ok: "dict_ok vs" and sol: "solved vs"
  shows "search vs = Inr (Some vs)"
proof -
  have all1: "\<forall>p \<in> set vs. length (snd p) = 1"
  proof
    fix p assume "p \<in> set vs"
    with solved_cell[OF sol] obtain d where "snd p = [d]" by blast
    then show "length (snd p) = 1" by simp
  qed
  then have "filter (\<lambda>(box, v). length v = 1) vs = vs" by (auto simp: filter_id_conv)
  then have full: "solved_count vs = 81"
    using dict_ok_length[OF ok] by (simp add: solved_count_def dict_ok_items[OF ok])
  have "\<forall>p \<in> set vs. snd p \<noteq> []" using all1 by auto
  then have ne: "empty_count vs = 0" using ok by (simp add: empty_count_zero)
  have "reduce_puzzle vs = Inr (Some vs)"
    using solved_reduce_pass[OF ok sol] ne by (subst reduce_puzzle.simps) simp
  from search_solved[OF ok this full] show ?thesis .
qed

lemma solved_grid_returned:
  assumes "length grid = 81" "set grid \<subseteq> set ''123456789''"
    and "\<forall>u \<in> set unitlist. unit_complete (grid2values grid) u"
  shows "solve grid = Inr (Some (grid2values grid))"
proof -
  have "solved (grid2values grid)"
    unfolding solved_def using grid2values_given[OF assms(1,2)] assms(3) by blast
  with grid2values_dict_ok[OF assms(1)] show ?thesis
    unfolding solve_def by (rule solved_search)
qed

text \<open>
  Claim C8. A grid of 81 digits whose dictionary has every unit complete is returned by
  \<open>solve\<close> as the dictionary of the grid, unchanged.
\<close>

theorem solve_solved_grid_unchanged:
  assumes "length grid = 81" "set grid \<subseteq> set ''123456789''"
    and "\<forall>u \<in> set unitlist. unit_complete (grid2values grid) u"
  shows "solve grid = Inr (Some (grid2values grid))"
  using assms by (rule solved_grid_returned)

text \<open>
  Claim C1. For a grid of 81 characters \<open>solve\<close> returns (it is a total function and
  raises no \<^verbatim>\<open>KeyError\<close>) either \<^verbatim>\<open>False\<close> or a dictionary of the 81 cells, in the order of
  the boxes, in which every cell holds exactly one digit from 1 to 9 and every one of the 29
  units holds each digit exactly once; the dictionary narrows the one of the grid, so the
  givens are kept.
\<close>

theorem solve_sound:
  assumes "length grid = 81"
  shows "solve grid = Inr None
       \<or> (\<exists>vs. solve grid = Inr (Some vs)
              \<and> map fst vs = boxes
              \<and> narrower vs (grid2values grid)
              \<and> (\<forall>p \<in> set vs. \<exists>d \<in> set ''123456789''. snd p = [d])
              \<and> (\<forall>u \<in> set unitlist. unit_complete vs u))"
proof -
  from search_sound[OF grid2values_dict_ok[OF assms] grid2values_cand_ok]
  have "sound_for (grid2values grid) (solve grid)" by (simp add: solve_def)
  then show ?thesis
  proof (unfold sound_for_def, elim disjE exE conjE)
    assume "solve grid = Inr None"
    then show ?thesis by simp
  next
    fix r assume r: "solve grid = Inr (Some r)" "narrower r (grid2values grid)" "solved r"
    have "map fst r = boxes" using narrower_keys[OF r(2)] grid2values_keys[OF assms] by simp
    with r show ?thesis unfolding solved_def by blast
  qed
qed

lemma unit_permutation_complete:
  assumes u: "u \<in> set unitlist" and p: "unit_permutation vs u"
  shows "unit_complete vs u"
proof -
  let ?D = "(\<lambda>d. Inr [d] :: error + string) ` set ''123456789''"
  from p have dist: "distinct (map (getitem vs) u)"
    and sub: "getitem vs ` set u \<subseteq> ?D"
    unfolding unit_permutation_def Let_def list_all_iff by (simp_all only: set_map) blast+
  have "inj (\<lambda>d. Inr [d] :: error + string)" by (simp add: inj_def)
  then have "inj_on (\<lambda>d. Inr [d] :: error + string) (set ''123456789'')"
    by (rule inj_on_subset) simp
  then have "card ?D = card (set ''123456789'')" by (rule card_image)
  also have "\<dots> = length ''123456789''" by (rule distinct_card) simp
  also have "\<dots> = 9" by simp
  finally have card: "card ?D = 9" .
  show ?thesis
    unfolding unit_complete_def
  proof
    fix d assume "d \<in> set ''123456789''"
    then have "Inr [d] \<in> ?D" by (rule imageI)
    from pigeonhole_unit[OF dist unit_length[OF u] sub card this]
    show "length (filter (\<lambda>b. getitem vs b = Inr [d]) u) = 1" .
  qed
qed

lemma solved_diag_grid_length: "length solved_diag_grid = 81"
  by (simp add: solved_diag_grid_def)

lemma solved_diag_grid_digits: "set solved_diag_grid \<subseteq> set ''123456789''"
  by (simp add: solved_diag_grid_def)

lemma solved_diag_grid_permutations:
  "list_all (unit_permutation (grid2values solved_diag_grid)) unitlist"
  by code_simp

lemma solved_diag_grid_units:
  "\<forall>u \<in> set unitlist. unit_complete (grid2values solved_diag_grid) u"
  using solved_diag_grid_permutations unit_permutation_complete by (auto simp: list_all_iff)

text \<open>
  The solution of the puzzle of \<^verbatim>\<open>solution.py\<close> is such a grid.
\<close>

theorem solve_solved_grid_unchanged_witness:
  "length solved_diag_grid = 81 \<and> set solved_diag_grid \<subseteq> set ''123456789''
   \<and> list_all (unit_complete (grid2values solved_diag_grid)) unitlist
   \<and> solve solved_diag_grid = Inr (Some (grid2values solved_diag_grid))"
  using solve_solved_grid_unchanged[OF solved_diag_grid_length solved_diag_grid_digits
      solved_diag_grid_units]
    solved_diag_grid_length solved_diag_grid_digits solved_diag_grid_units
  by (simp only: list_all_iff simp_thms)

text \<open>
  On the solved grid the second case holds.
\<close>

theorem solve_sound_witness:
  "length solved_diag_grid = 81
   \<and> (\<exists>vs. solve solved_diag_grid = Inr (Some vs)
          \<and> map fst vs = boxes
          \<and> narrower vs (grid2values solved_diag_grid)
          \<and> (\<forall>p \<in> set vs. \<exists>d \<in> set ''123456789''. snd p = [d])
          \<and> (\<forall>u \<in> set unitlist. unit_complete vs u))"
proof -
  have "solve solved_diag_grid \<noteq> Inr None"
    using solved_grid_returned[OF solved_diag_grid_length solved_diag_grid_digits
        solved_diag_grid_units] by simp
  with solve_sound[OF solved_diag_grid_length] solved_diag_grid_length show ?thesis
    by blast
qed


section \<open>The search and the naked twins\<close>

lemma only_choice_digit_not_one:
  assumes "\<forall>b \<in> set unit. map_of vs b \<noteq> None"
    and "length (filter (\<lambda>b. \<exists>s. map_of vs b = Some s \<and> d \<in> set s) unit) \<noteq> 1"
  shows "only_choice_digit unit d vs = Inr vs"
proof -
  let ?pc = "filter (\<lambda>b. \<exists>s. map_of vs b = Some s \<and> d \<in> set s) unit"
  have "places_counter vs d unit = Inr ?pc" using assms(1) by (rule places_counter_filter)
  moreover have "\<not> (\<exists>b. ?pc = [b])" using assms(2) by auto
  ultimately show ?thesis by (auto simp: only_choice_digit_def split: list.splits)
qed

lemma filter_mono_length:
  "(\<And>x. x \<in> set xs \<Longrightarrow> Q x \<Longrightarrow> P x) \<Longrightarrow> length (filter Q xs) \<le> length (filter P xs)"
  by (induction xs) auto

lemma map_of_tabulate:
  "map_of (map (\<lambda>k. (k, f k)) xs) k = (if k \<in> set xs then Some (f k) else None)"
  by (induction xs) auto

lemma twins_ahead_dict_ok: "dict_ok twins_ahead"
  using boxes_ok by (simp add: dict_ok_def twins_ahead_def comp_def)

lemma twins_ahead_lookup:
  "b \<in> set boxes \<Longrightarrow>
     map_of twins_ahead b = Some (if b = ''A1'' then ''13''
                else if b = ''A2'' \<or> b = ''A3'' then ''12'' else ''123456789'')"
  unfolding twins_ahead_def by (simp only: map_of_tabulate if_True)

lemma twins_ahead_lengths: "p \<in> set twins_ahead \<Longrightarrow> length (snd p) = 2 \<or> length (snd p) = 9"
  unfolding twins_ahead_def by (auto split: if_splits)

lemma unitlist_two_blank:
  "list_all (\<lambda>u. 2 \<le> length (filter (\<lambda>b. b \<noteq> ''A1'' \<and> b \<noteq> ''A2'' \<and> b \<noteq> ''A3'') u)) unitlist"
  by code_simp

lemma twins_ahead_reduce: "reduce_puzzle twins_ahead = Inr (Some twins_ahead)"
proof -
  have e: "eliminate twins_ahead = Inr twins_ahead"
  proof (rule eliminate_no_singles)
    show "distinct (map fst twins_ahead)" using twins_ahead_dict_ok by (simp add: dict_ok_def)
    show "\<forall>p \<in> set twins_ahead. length (snd p) \<noteq> 1" using twins_ahead_lengths by fastforce
  qed
  have "only_choice twins_ahead = Inr twins_ahead"
    unfolding only_choice_def
  proof (rule for_each_id, rule for_each_id)
    fix u d assume u: "u \<in> set unitlist" and d: "d \<in> set ''123456789''"
    show "only_choice_digit u d twins_ahead = Inr twins_ahead"
    proof (rule only_choice_digit_not_one)
      show "\<forall>b \<in> set u. map_of twins_ahead b \<noteq> None"
        using twins_ahead_lookup unit_boxes[OF u] by simp
      have "2 \<le> length (filter (\<lambda>b. b \<noteq> ''A1'' \<and> b \<noteq> ''A2'' \<and> b \<noteq> ''A3'') u)"
        using unitlist_two_blank u by (simp add: list_all_iff)
      also have "\<dots> \<le> length (filter (\<lambda>b. \<exists>s. map_of twins_ahead b = Some s \<and> d \<in> set s) u)"
      proof (rule filter_mono_length)
        fix b assume "b \<in> set u" "b \<noteq> ''A1'' \<and> b \<noteq> ''A2'' \<and> b \<noteq> ''A3''"
        then have "map_of twins_ahead b = Some ''123456789''"
          using twins_ahead_lookup[OF unit_boxes[OF u]] by simp
        with d show "\<exists>s. map_of twins_ahead b = Some s \<and> d \<in> set s" by blast
      qed
      finally show "length (filter (\<lambda>b. \<exists>s. map_of twins_ahead b = Some s \<and> d \<in> set s) u) \<noteq> 1"
        by simp
    qed
  qed
  with e have p: "reduce_pass twins_ahead = Inr twins_ahead" by (simp add: reduce_pass_strategies)
  have "\<forall>p \<in> set twins_ahead. snd p \<noteq> []" using twins_ahead_lengths by fastforce
  then have "empty_count twins_ahead = 0"
    using twins_ahead_dict_ok by (simp add: empty_count_zero)
  with p show ?thesis by (subst reduce_puzzle.simps) simp
qed

lemma twins_ahead_scan: "scan twins_ahead (10, None, 0) = (2, Some ''A1'', 0)"
  by code_simp

lemma twins_ahead_first_unit:
  "(case twins_in_unit (unitlist ! 0) twins_ahead of
      Inl e \<Rightarrow> False | Inr m \<Rightarrow> getitem m ''A1'' = Inr ''3'')"
  by code_simp

text \<open>
  Claim C2 does not hold of the code: \<open>search\<close> goes from \<^verbatim>\<open>reduce_puzzle\<close> straight to the
  scan and the branching, and \<open>naked_twins\<close> is called nowhere. On \<open>twins_ahead\<close> the
  reducer stalls at once and \<open>search\<close> branches on \<^verbatim>\<open>A1\<close> with both of its candidates 1
  and 3, while \<open>naked_twins\<close> on the same dictionary removes the candidate 1 from
  \<^verbatim>\<open>A1\<close>.
\<close>

theorem search_ignores_naked_twins:
  "reduce_puzzle twins_ahead = Inr (Some twins_ahead)
   \<and> search twins_ahead = try_choices twins_ahead ''A1'' ''13''
   \<and> (\<exists>r s. naked_twins twins_ahead = Inr r \<and> getitem r ''A1'' = Inr s \<and> CHR ''1'' \<notin> set s)"
proof -
  have g: "getitem twins_ahead ''A1'' = Inr ''13''" by code_simp
  have "twins_ahead \<noteq> []" using dict_ok_length[OF twins_ahead_dict_ok] by auto
  then have "truthy (Some twins_ahead)" by (simp add: truthy_def)
  then have s: "search twins_ahead = try_choices twins_ahead ''A1'' ''13''"
    using twins_ahead_reduce twins_ahead_scan g
    by (subst search.simps) (simp add: dict_ok_items[OF twins_ahead_dict_ok])
  from naked_twins_total[OF dict_ok_has_boxes[OF twins_ahead_dict_ok]] obtain r where
    r: "naked_twins twins_ahead = Inr r" by blast
  have "unitlist = unitlist ! 0 # tl unitlist" by code_simp
  then have "naked_twins twins_ahead =
      (case twins_in_unit (unitlist ! 0) twins_ahead of
         Inl e \<Rightarrow> Inl e | Inr m \<Rightarrow> for_each twins_in_unit (tl unitlist) m)"
    unfolding naked_twins_def by (metis for_each.simps(2))
  with r twins_ahead_first_unit obtain m where
    m: "getitem m ''A1'' = Inr ''3''" "for_each twins_in_unit (tl unitlist) m = Inr r"
    by (auto split: sum.splits)
  have "narrower r m"
    using m(2) by (rule for_each_narrower[rotated]) (rule twins_in_unit_narrower)
  moreover from m(1) have "map_of m ''A1'' = Some ''3''"
    by (auto simp: getitem_def split: option.splits)
  ultimately obtain t where t: "map_of r ''A1'' = Some t" "subseq t ''3''"
    using narrower_map_of by blast
  from t(2) have "CHR ''1'' \<notin> set t" by (rule subseq_notin) simp
  moreover from t(1) have "getitem r ''A1'' = Inr t" by (simp add: getitem_def)
  ultimately show ?thesis using twins_ahead_reduce s r by blast
qed

end
